theory Spec2Isabelle
  imports Main "HOL-Library.Sublist"
begin

section \<open>JavaScript values\<close>

text \<open>
  The queue stores arbitrary JavaScript values as payload fields and as results.
  Primitives are compared by value and objects by reference, so an object carries
  its address. \<open>Err a k s\<close> is an \<open>Error\<close> instance at address \<open>a\<close> whose
  \<open>toString()\<close> is \<open>s\<close>; the kind \<open>k\<close> tells a \<open>SiapRetryError\<close> (the
  retryable failure, a subclass of \<open>Error\<close> declared in \<open>./siap\<close>) from any
  other error. \<open>Obj a s\<close> is any other object or array at address \<open>a\<close> whose
  string conversion is \<open>s\<close>. Numbers are the integers and \<open>NaN\<close>.
\<close>

datatype errkind = PlainError | SiapRetryError

datatype jsval =
    Undefined
  | Null
  | Bool bool
  | Num int
  | NaN
  | Str string
  | Err nat errkind string
  | Obj nat string

text \<open>The operator \<open>===\<close>; \<open>a !== b\<close> is its negation.\<close>

fun strict_eq :: "jsval \<Rightarrow> jsval \<Rightarrow> bool" where
  "strict_eq Undefined Undefined = True"
| "strict_eq Null Null = True"
| "strict_eq (Bool a) (Bool b) = (a = b)"
| "strict_eq (Num a) (Num b) = (a = b)"
| "strict_eq (Str a) (Str b) = (a = b)"
| "strict_eq (Err a _ _) (Err b _ _) = (a = b)"
| "strict_eq (Obj a _) (Obj b _) = (a = b)"
| "strict_eq _ _ = False"

text \<open>Truthiness, as tested by \<open>if (v)\<close> and \<open>!v\<close>.\<close>

fun truthy :: "jsval \<Rightarrow> bool" where
  "truthy Undefined = False"
| "truthy Null = False"
| "truthy (Bool b) = b"
| "truthy (Num n) = (n \<noteq> 0)"
| "truthy NaN = False"
| "truthy (Str s) = (s \<noteq> [])"
| "truthy (Err _ _ _) = True"
| "truthy (Obj _ _) = True"

text \<open>\<open>v instanceof Error\<close> and \<open>v instanceof SiapRetryError\<close>.\<close>

fun instanceof_Error :: "jsval \<Rightarrow> bool" where
  "instanceof_Error (Err _ _ _) = True"
| "instanceof_Error _ = False"

fun instanceof_SiapRetryError :: "jsval \<Rightarrow> bool" where
  "instanceof_SiapRetryError (Err _ SiapRetryError _) = True"
| "instanceof_SiapRetryError _ = False"

text \<open>Decimal rendering of a number, as \<open>Number.prototype.toString\<close> gives for integers.\<close>

definition digit_char :: "nat \<Rightarrow> char" where
  "digit_char d = char_of (48 + d)"

fun nat_to_string :: "nat \<Rightarrow> string" where
  "nat_to_string n = (if n < 10 then [digit_char n]
     else nat_to_string (n div 10) @ [digit_char (n mod 10)])"

declare nat_to_string.simps [simp del]

definition int_to_string :: "int \<Rightarrow> string" where
  "int_to_string i = (if i < 0 then CHR ''-'' # nat_to_string (nat (- i))
     else nat_to_string (nat i))"

text \<open>The abstract operation \<open>ToString\<close>, applied wherever a value is spliced into a string.\<close>

fun to_string :: "jsval \<Rightarrow> string" where
  "to_string Undefined = ''undefined''"
| "to_string Null = ''null''"
| "to_string (Bool b) = (if b then ''true'' else ''false'')"
| "to_string (Num n) = int_to_string n"
| "to_string NaN = ''NaN''"
| "to_string (Str s) = s"
| "to_string (Err _ _ s) = s"
| "to_string (Obj _ s) = s"

section \<open>Queue items\<close>

datatype status = STATUS_NEW | STATUS_PROCESSING | STATUS_DONE | STATUS_ERROR
  | STATUS_TIMED_OUT | STATUS_SKIPPED

definition QUEUE_SPP :: string where "QUEUE_SPP = ''spp''"
definition QUEUE_CALLBACK :: string where "QUEUE_CALLBACK = ''callback''"
definition QUEUE_CAPTCHA :: string where "QUEUE_CAPTCHA = ''captcha''"
definition QUEUE_NOOP :: string where "QUEUE_NOOP = ''noop''"

text \<open>
  The \<open>maps\<close> field is a nested object whose leaves name payload keys. A property
  read sees own properties only: the entries of an object, and the indices and the
  \<open>length\<close> of a string.
\<close>

datatype mapnode = Leaf jsval | Node "(string \<times> mapnode) list"

text \<open>
  An item. \<open>qid\<close>, \<open>qtype\<close>, \<open>qtime\<close>, \<open>qretry\<close> and \<open>qinfo\<close> are the
  JavaScript fields \<open>id\<close>, \<open>type\<close>, \<open>time\<close>, \<open>retry\<close> and \<open>info\<close>; an unset
  field is \<open>None\<close>. Times are milliseconds since the epoch. The four hooks are
  caller-supplied functions; the item records whether each is present.
\<close>

record item =
  qid :: "string option"
  qtype :: "string option"
  data :: "(string \<rightharpoonup> jsval) option"
  callback :: "string option"
  status :: status
  result :: jsval
  qtime :: "nat option"
  retryCount :: "nat option"
  qretry :: bool
  qinfo :: "string option"
  maps :: "mapnode option"
  has_resolve :: bool
  has_reject :: bool
  has_onretry :: bool
  has_ontimeout :: bool

text \<open>What \<open>console.log\<close> is asked to print.\<close>

datatype logline =
    StatusLine string status
  | ResultLine string jsval
  | RetryLine string nat

text \<open>The constructor: a new item has status \<open>new\<close> and nothing else.\<close>

definition new_item :: item where
  "new_item = \<lparr> qid = None, qtype = None, data = None, callback = None,
     status = STATUS_NEW, result = Undefined, qtime = None, retryCount = None,
     qretry = False, qinfo = None, maps = None, has_resolve = False,
     has_reject = False, has_onretry = False, has_ontimeout = False \<rparr>"

definition setType :: "string \<Rightarrow> item \<Rightarrow> item" where
  "setType t q = q\<lparr>qtype := Some t\<rparr>"

definition setId :: "string \<Rightarrow> item \<Rightarrow> item" where
  "setId i q = q\<lparr>qid := Some i\<rparr>"

definition setData :: "(string \<rightharpoonup> jsval) option \<Rightarrow> item \<Rightarrow> item" where
  "setData d q = q\<lparr>data := d\<rparr>"

definition setCallback :: "string \<Rightarrow> item \<Rightarrow> item" where
  "setCallback c q = q\<lparr>callback := Some c\<rparr>"

definition getTypeText :: "item \<Rightarrow> string option" where
  "getTypeText q = qtype q"

definition getStatusText :: "item \<Rightarrow> status" where
  "getStatusText q = status q"

text \<open>A string field is truthy when it is set and not empty.\<close>

definition truthy_str :: "string option \<Rightarrow> bool" where
  "truthy_str s = (case s of None \<Rightarrow> False | Some t \<Rightarrow> t \<noteq> [])"

definition getInfo :: "item \<Rightarrow> string option" where
  "getInfo q = (if \<not> truthy_str (qinfo q) \<and> qtype q = Some QUEUE_CALLBACK
     then callback q else qinfo q)"

text \<open>An unset field spliced into a template literal prints as \<open>undefined\<close>.\<close>

definition show_field :: "string option \<Rightarrow> string" where
  "show_field s = (case s of None \<Rightarrow> ''undefined'' | Some t \<Rightarrow> t)"

definition toString :: "item \<Rightarrow> string" where
  "toString q = (let info = getInfo q in
     show_field (getTypeText q) @ '':'' @ show_field (qid q) @
     (if truthy_str info then '' '' @ show_field info else ''''))"

text \<open>
  Each mutator returns the updated item and the lines it printed. \<open>setStatus\<close> and
  \<open>setResult\<close> write and print only when the new value is not \<open>===\<close> the old one.
\<close>

definition setStatus :: "status \<Rightarrow> item \<Rightarrow> item \<times> logline list" where
  "setStatus st q = (if status q \<noteq> st
     then (let q' = q\<lparr>status := st\<rparr> in (q', [StatusLine (toString q') (getStatusText q')]))
     else (q, []))"

definition setResult :: "jsval \<Rightarrow> item \<Rightarrow> item \<times> logline list" where
  "setResult r q = (if \<not> strict_eq (result q) r
     then (let q' = q\<lparr>result := r\<rparr> in
        (q', [ResultLine (toString q')
           (if instanceof_Error (result q') then Str (to_string (result q')) else result q')]))
     else (q, []))"

text \<open>\<open>setTime()\<close> without an argument stamps the current time \<open>now\<close>.\<close>

definition setTime :: "nat option \<Rightarrow> nat \<Rightarrow> item \<Rightarrow> item" where
  "setTime t now q = q\<lparr>qtime := Some (case t of None \<Rightarrow> now | Some t' \<Rightarrow> t')\<rparr>"

definition start :: "nat \<Rightarrow> item \<Rightarrow> item \<times> logline list" where
  "start now q = setStatus STATUS_PROCESSING (setTime None now q)"

definition done_item :: "jsval \<Rightarrow> item \<Rightarrow> item \<times> logline list" where
  "done_item r q = (let (q1, l1) = setStatus STATUS_DONE q; (q2, l2) = setResult r q1
     in (q2, l1 @ l2))"

definition error_item :: "jsval \<Rightarrow> item \<Rightarrow> item \<times> logline list" where
  "error_item e q = (let (q1, l1) = setStatus STATUS_ERROR q; (q2, l2) = setResult e q1
     in (q2, l1 @ l2))"

definition finished :: "item \<Rightarrow> bool" where
  "finished q = (status q \<in> set [STATUS_DONE, STATUS_ERROR, STATUS_TIMED_OUT, STATUS_SKIPPED])"

text \<open>The factories. A callback that is unset or empty is not stored.\<close>

definition create :: "string \<Rightarrow> (string \<rightharpoonup> jsval) option \<Rightarrow> string option \<Rightarrow> item" where
  "create t d cb = (let q = setData d (setType t new_item)
     in if truthy_str cb then q\<lparr>callback := cb\<rparr> else q)"

definition createSppQueue :: "(string \<rightharpoonup> jsval) option \<Rightarrow> string option \<Rightarrow> item" where
  "createSppQueue d cb = create QUEUE_SPP d cb"

definition createCallbackQueue :: "(string \<rightharpoonup> jsval) option \<Rightarrow> string option \<Rightarrow> item" where
  "createCallbackQueue d cb = create QUEUE_CALLBACK d cb"

definition createCaptchaQueue :: "(string \<rightharpoonup> jsval) option \<Rightarrow> item" where
  "createCaptchaQueue d = create QUEUE_CAPTCHA d None"

definition createNoopQueue :: "(string \<rightharpoonup> jsval) option \<Rightarrow> item" where
  "createNoopQueue d = create QUEUE_NOOP d None"

section \<open>Strings\<close>

fun split_on :: "char \<Rightarrow> string \<Rightarrow> string list" where
  "split_on c [] = [[]]"
| "split_on c (x # xs) = (if x = c then [] # split_on c xs
     else (case split_on c xs of [] \<Rightarrow> [[x]] | w # ws \<Rightarrow> (x # w) # ws))"

text \<open>
  \<open>trim\<close> removes the white space of the ASCII range; the other characters that
  \<open>String.prototype.trim\<close> removes lie outside it.
\<close>

definition is_space :: "char \<Rightarrow> bool" where
  "is_space c = (c \<in> set [CHR 0x09, CHR 0x0A, CHR 0x0B, CHR 0x0C, CHR 0x0D, CHR '' ''])"

definition trim :: "string \<Rightarrow> string" where
  "trim s = rev (dropWhile is_space (rev (dropWhile is_space s)))"

fun indexOf :: "char \<Rightarrow> string \<Rightarrow> int" where
  "indexOf c [] = - 1"
| "indexOf c (x # xs) = (if x = c then 0
     else (let i = indexOf c xs in if i < 0 then - 1 else i + 1))"

definition join_elem :: "jsval \<Rightarrow> string" where
  "join_elem v = (case v of Undefined \<Rightarrow> [] | Null \<Rightarrow> [] | _ \<Rightarrow> to_string v)"

fun join :: "string \<Rightarrow> jsval list \<Rightarrow> string" where
  "join sep [] = []"
| "join sep [v] = join_elem v"
| "join sep (v # w # vs) = join_elem v @ sep @ join sep (w # vs)"

fun expand_replacement :: "string \<Rightarrow> string \<Rightarrow> string \<Rightarrow> string \<Rightarrow> string" where
  "expand_replacement m b a [] = []"
| "expand_replacement m b a [c] = [c]"
| "expand_replacement m b a (c # d # cs) =
     (if c = CHR ''$'' then
        (if d = CHR ''$'' then CHR ''$'' # expand_replacement m b a cs
         else if d = CHR ''&'' then m @ expand_replacement m b a cs
         else if d = CHR 0x60 then b @ expand_replacement m b a cs
         else if d = CHR 0x27 then a @ expand_replacement m b a cs
         else c # expand_replacement m b a (d # cs))
      else c # expand_replacement m b a (d # cs))"

function replace_global :: "string \<Rightarrow> string \<Rightarrow> string \<Rightarrow> string \<Rightarrow> string" where
  "replace_global pat rep pre s =
     (if s = [] \<or> pat = [] then s
      else if prefix pat s then
        expand_replacement pat pre (drop (length pat) s) rep
          @ replace_global pat rep (pre @ pat) (drop (length pat) s)
      else hd s # replace_global pat rep (pre @ [hd s]) (tl s))"
  by pat_completeness auto
termination
  by (relation "measure (\<lambda>(p, r, b, s). length s)") auto

declare replace_global.simps [simp del]

datatype exn = TypeError | JsError string

datatype jskey = KStr string | KOther

text \<open>
  The read \<open>d[k]\<close> of a payload field. The payload is a plain data object and the
  read sees its own keys: a key that only \<open>Object.prototype\<close> has, such as
  \<open>constructor\<close>, reads as \<open>undefined\<close> here.
\<close>

definition lookup :: "(string \<rightharpoonup> jsval) \<Rightarrow> string \<Rightarrow> jsval" where
  "lookup d k = (case d k of None \<Rightarrow> Undefined | Some v \<Rightarrow> v)"

fun sequence :: "(exn + 'a) list \<Rightarrow> exn + 'a list" where
  "sequence [] = Inr []"
| "sequence (Inl e # _) = Inl e"
| "sequence (Inr v # rs) = (case sequence rs of Inl e \<Rightarrow> Inl e | Inr vs \<Rightarrow> Inr (v # vs))"

fun format_fold :: "string \<Rightarrow> nat \<Rightarrow> jsval list \<Rightarrow> string" where
  "format_fold v i [] = v"
| "format_fold v i (r # rs) =
     format_fold (replace_global (''%'' @ nat_to_string (i + 1) @ ''%'') (to_string r) [] v) (i + 1) rs"

lemma split_on_sum: "sum_list (map (\<lambda>w. Suc (length w)) (split_on c s)) = Suc (length s)"
  by (induction s) (auto split: list.splits)

lemma split_on_nonempty: "split_on c s \<noteq> []"
  by (cases s) (auto split: list.splits)

lemma elem_le_sum: "w \<in> set ws \<Longrightarrow> Suc (length w) \<le> sum_list (map (\<lambda>w. Suc (length w)) ws)"
  by (induction ws) auto

lemma split_on_elem_le: "w \<in> set (split_on c s) \<Longrightarrow> length w \<le> length s"
  using elem_le_sum [of w "split_on c s"] by (simp add: split_on_sum)

lemma split_on_second_lt:
  assumes "split_on c s = a # b # rest"
  shows "length b < length s"
proof -
  have "sum_list (map (\<lambda>w. Suc (length w)) (a # b # rest)) = Suc (length s)"
    using split_on_sum [of c s] assms by simp
  then show ?thesis by simp
qed

lemma length_trim_le: "length (trim s) \<le> length s"
  unfolding trim_def
  by (metis length_dropWhile_le length_rev order_trans)

function getDataValue :: "item \<Rightarrow> jskey \<Rightarrow> exn + jsval"
  and getTranslatedValue :: "item \<Rightarrow> string \<Rightarrow> exn + jsval" where
  "getDataValue q KOther = Inr Undefined"
| "getDataValue q (KStr key) =
     (case data q of
        None \<Rightarrow> Inl TypeError
      | Some d \<Rightarrow>
          if lookup d key \<noteq> Undefined then Inr (lookup d key)
          else if indexOf CHR '':'' key > 0 then getTranslatedValue q key
          else Inr Undefined)"
| "getTranslatedValue q str =
     (case split_on CHR '':'' str of
        vtype # vvalue # _ \<Rightarrow>
          if vtype = ''CONCAT'' then
            (case split_on CHR ''|'' vvalue of
               separator # vals \<Rightarrow>
                 (case sequence (map (\<lambda>n. getDataValue q (KStr (trim n))) vals) of
                    Inl e \<Rightarrow> Inl e
                  | Inr v \<Rightarrow> Inr (Str (join separator v)))
             | [] \<Rightarrow> Inl TypeError)
          else if vtype = ''FORMAT'' then
            (case split_on CHR ''|'' vvalue of
               template # vals \<Rightarrow>
                 (case sequence (map (\<lambda>n. getDataValue q (KStr (trim n))) vals) of
                    Inl e \<Rightarrow> Inl e
                  | Inr v \<Rightarrow> Inr (Str (format_fold template 0 v)))
             | [] \<Rightarrow> Inl TypeError)
          else Inr (Str str)
      | [vtype] \<Rightarrow>
          if vtype = ''CONCAT'' \<or> vtype = ''FORMAT'' then Inl TypeError else Inr (Str str)
      | [] \<Rightarrow> Inr (Str str))"
  by pat_completeness auto
termination
proof (relation "measure (\<lambda>x. case x of Inl (q, k) \<Rightarrow> (case k of KStr s \<Rightarrow> 2 * length s + 1 | KOther \<Rightarrow> 0)
                                 | Inr (q, v) \<Rightarrow> 2 * length v)", goal_cases)
  case 1 show ?case by simp
next
  case (2 q key d) then show ?case by simp
next
  case (3 q str vtype list vvalue rest separator vals n)
  have a: "length vvalue < length str" using 3(1,2) split_on_second_lt by metis
  have "n \<in> set (split_on CHR ''|'' vvalue)" using 3 by simp
  then have b: "length n \<le> length vvalue" by (rule split_on_elem_le)
  have "length (trim n) \<le> length n" by (rule length_trim_le)
  with a b show ?case by simp
next
  case (4 q str vtype list vvalue rest template vals n)
  have a: "length vvalue < length str" using 4(1,2) split_on_second_lt by metis
  have "n \<in> set (split_on CHR ''|'' vvalue)" using 4 by simp
  then have b: "length n \<le> length vvalue" by (rule split_on_elem_le)
  have "length (trim n) \<le> length n" by (rule length_trim_le)
  with a b show ?case by simp
qed


declare getDataValue.simps [simp del] getTranslatedValue.simps [simp del]

section \<open>Mapped fields\<close>

fun parse_index :: "string \<Rightarrow> nat option" where
  "parse_index s = (if s \<noteq> [] \<and> s = nat_to_string (foldl (\<lambda>a c. 10 * a + (of_char c - 48)) 0 s)
     then Some (foldl (\<lambda>a c. 10 * a + (of_char c - 48)) 0 s) else None)"

fun get_prop :: "mapnode \<Rightarrow> string \<Rightarrow> mapnode option" where
  "get_prop (Node kvs) n = map_of kvs n"
| "get_prop (Leaf (Str s)) n =
     (if n = ''length'' then Some (Leaf (Num (int (length s))))
      else (case parse_index n of
              Some i \<Rightarrow> if i < length s then Some (Leaf (Str [s ! i])) else None
            | None \<Rightarrow> None))"
| "get_prop (Leaf _) n = None"

fun node_truthy :: "mapnode \<Rightarrow> bool" where
  "node_truthy (Node _) = True"
| "node_truthy (Leaf v) = truthy v"

datatype name_arg = NameStr string | NameArr "string list" | NameOther

datatype mapres = MapUndefined | MapNull | MapNode mapnode

fun walk :: "mapnode \<Rightarrow> string list \<Rightarrow> mapres" where
  "walk o' [] = MapNode o'"
| "walk o' (n # parts) =
     (case get_prop o' n of
        Some p \<Rightarrow> if node_truthy p then walk p parts else MapNull
      | None \<Rightarrow> MapNull)"

definition getMap :: "name_arg \<Rightarrow> item \<Rightarrow> mapres" where
  "getMap name q =
     (case maps q of
        None \<Rightarrow> MapUndefined
      | Some m \<Rightarrow>
          if node_truthy m then
            (case name of
               NameStr s \<Rightarrow> walk m (split_on CHR ''.'' s)
             | NameArr a \<Rightarrow> walk m a
             | NameOther \<Rightarrow> MapUndefined)
          else MapUndefined)"

fun key_of :: "mapres \<Rightarrow> jskey" where
  "key_of (MapNode (Leaf (Str s))) = KStr s"
| "key_of _ = KOther"

definition getMappedData :: "name_arg \<Rightarrow> item \<Rightarrow> exn + jsval" where
  "getMappedData name q = getDataValue q (key_of (getMap name q))"

section \<open>The dispatcher\<close>

text \<open>
  The consumer is the external workflow layer. Its two synchronous answers are part
  of the state; the settlement of a \<open>processQueue\<close> call, or of a hook, is an
  event that arrives later.
\<close>

record consumer_t =
  canProcessQueue :: bool
  canHandleNextQueue :: "item \<Rightarrow> bool"

datatype outcome = Fulfilled jsval | Rejected jsval

text \<open>
  What the dispatcher does to the outside, in the order it does it: events it
  emits, hooks and consumer methods it calls, calls of the runner's \<open>next()\<close>,
  admissions by the runner, and console output. Items are named by their
  address.
\<close>

datatype action =
    Emit string nat
  | Resolve nat jsval
  | Reject nat jsval
  | ProcessQueue nat
  | OnRetry nat
  | OnTimeout nat
  | Next
  | Dispatch nat
  | Console logline
  | ConsoleError

text \<open>
  The dispatcher state. The code holds references to item objects: \<open>add\<close>
  pushes the object it is given, so an object submitted twice is one object that
  the history lists twice. \<open>heap\<close> holds the item objects, an object's address
  being its index; every other field refers to an item by its address. \<open>queues\<close>
  is the history \<open>this.queues\<close>, the addresses in the order pushed. \<open>pending\<close>
  and \<open>current\<close> are the runner's \<open>queues\<close> and \<open>queue\<close>; \<open>lastq\<close> is the field
  \<open>last\<close>. \<open>polling\<close> tells whether the poll loop is installed. \<open>inflight\<close>, \<open>retrying\<close> and
  \<open>timingout\<close> hold the items with an unsettled \<open>processQueue\<close>, \<open>onretry\<close>
  or \<open>ontimeout\<close> promise.
\<close>

record dequeue =
  time :: nat
  heap :: "item list"
  queues :: "nat list"
  pending :: "nat list"
  current :: "nat option"
  consumer :: "consumer_t option"
  timeout :: int
  retry :: nat
  lastq :: "nat option"
  info :: "(string \<times> jsval) list"
  polling :: bool
  inflight :: "nat list"
  retrying :: "nat list"
  timingout :: "nat list"
  trace :: "action list"

definition new_dequeue :: "nat \<Rightarrow> dequeue" where
  "new_dequeue now = \<lparr> time = now, heap = [], queues = [], pending = [], current = None,
     consumer = None, timeout = 10 * 60 * 1000, retry = 3, lastq = None, info = [],
     polling = False, inflight = [], retrying = [], timingout = [], trace = [] \<rparr>"

definition act :: "action \<Rightarrow> dequeue \<Rightarrow> dequeue" where
  "act a d = d\<lparr>trace := trace d @ [a]\<rparr>"

definition emit :: "string \<Rightarrow> nat \<Rightarrow> dequeue \<Rightarrow> dequeue" where
  "emit name i d = act (Emit name i) d"

text \<open>Calling a method of the item at index \<open>i\<close>: the store is updated and the lines printed.\<close>

definition on_item :: "nat \<Rightarrow> (item \<Rightarrow> item \<times> logline list) \<Rightarrow> dequeue \<Rightarrow> dequeue" where
  "on_item i m d = (case m (heap d ! i) of (q, ls) \<Rightarrow>
     d\<lparr>heap := (heap d)[i := q], trace := trace d @ map Console ls\<rparr>)"

subsection \<open>The sequential runner\<close>

text \<open>
  Modelled from the spec: the runner is the class \<open>Queue\<close> of the package
  \<open>@ntlab/work\<close>, which is not part of the sources. The specification gives it an
  ordered pending list, \<open>enqueue(item, priority)\<close> (the call \<open>requeue\<close> in the
  code) which appends to the tail or, with priority, inserts at the head, and
  \<open>advance()\<close> (the call \<open>next()\<close>) which, when the readiness predicate holds and
  the list is not empty, pops the head item and hands it to the item processor.
  A call of \<open>next()\<close> is recorded; the admission it asks for is the separate step
  \<open>admit\<close>, so that nothing is assumed about how soon the runner acts on a call.
\<close>

definition requeue :: "nat list \<Rightarrow> bool \<Rightarrow> dequeue \<Rightarrow> dequeue" where
  "requeue qs priority d = d\<lparr>pending := (if priority then qs @ pending d else pending d @ qs)\<rparr>"

definition queue_next :: "dequeue \<Rightarrow> dequeue" where
  "queue_next d = act Next d"

subsection \<open>The dispatcher's methods\<close>

definition canProcess :: "dequeue \<Rightarrow> bool" where
  "canProcess d = (case consumer d of None \<Rightarrow> False | Some c \<Rightarrow> canProcessQueue c)"

definition getCurrent :: "dequeue \<Rightarrow> nat option" where
  "getCurrent d = current d"

definition getNext :: "dequeue \<Rightarrow> nat option" where
  "getNext d = (case pending d of [] \<Rightarrow> None | n # _ \<Rightarrow> Some n)"

definition getLast :: "dequeue \<Rightarrow> nat option" where
  "getLast d = lastq d"

definition setLastQueue :: "nat \<Rightarrow> dequeue \<Rightarrow> dequeue" where
  "setLastQueue i d = (if qtype (heap d ! i) \<noteq> Some QUEUE_CALLBACK then d\<lparr>lastq := Some i\<rparr> else d)"

text \<open>
  The closures of \<open>doQueue\<close>. \<open>now\<close> is the clock reading when the closure runs.
  \<open>retry_closure\<close> is the closure \<open>retry\<close>.
\<close>

definition success :: "nat \<Rightarrow> jsval \<Rightarrow> dequeue \<Rightarrow> dequeue" where
  "success i res d =
     (let d1 = on_item i (done_item res) d;
          d2 = setLastQueue i d1;
          d3 = (if has_resolve (heap d2 ! i) then act (Resolve i res) d2 else d2);
          d4 = emit ''queue-done'' i d3
      in queue_next d4)"

definition fail :: "nat \<Rightarrow> jsval \<Rightarrow> dequeue \<Rightarrow> dequeue" where
  "fail i err d =
     (let d1 = on_item i (error_item err) d;
          d2 = setLastQueue i d1;
          d3 = (if has_reject (heap d2 ! i) then act (Reject i err) d2 else d2);
          d4 = emit ''queue-error'' i d3
      in queue_next d4)"

definition doit :: "nat \<Rightarrow> nat \<Rightarrow> dequeue \<Rightarrow> dequeue" where
  "doit now i d =
     (if status (heap d ! i) \<noteq> STATUS_SKIPPED then
        (let d1 = on_item i (start now) d;
             d2 = emit ''queue-start'' i d1
         in case consumer d2 of
              None \<Rightarrow> queue_next (act ConsoleError d2)
            | Some c \<Rightarrow>
                (let d3 = (act (ProcessQueue i) d2)\<lparr>inflight := inflight d2 @ [i]\<rparr>
                 in case getNext d3 of
                      None \<Rightarrow> d3
                    | Some n \<Rightarrow>
                        if qtype (heap d3 ! n) \<noteq> Some QUEUE_CALLBACK
                           \<and> canHandleNextQueue c (heap d3 ! n)
                        then queue_next d3 else d3))
      else queue_next d)"

definition retry_closure :: "nat \<Rightarrow> nat \<Rightarrow> jsval \<Rightarrow> dequeue \<Rightarrow> dequeue" where
  "retry_closure now i err d =
     (let n = (case retryCount (heap d ! i) of None \<Rightarrow> 0 | Some k \<Rightarrow> k) + 1;
          d1 = d\<lparr>heap := (heap d)[i := (heap d ! i)\<lparr>retryCount := Some n\<rparr>]\<rparr>;
          q = heap d1 ! i
      in if instanceof_SiapRetryError err \<and> qretry q \<and> n \<le> retry d1 then
           (let d2 = act (Console (RetryLine (toString q) n)) d1
            in if has_onretry q
               then (act (OnRetry i) d2)\<lparr>retrying := retrying d2 @ [i]\<rparr>
               else doit now i d2)
         else fail i err d1)"

definition doQueue :: "nat \<Rightarrow> nat \<Rightarrow> dequeue \<Rightarrow> dequeue" where
  "doQueue now i d = (case consumer d of None \<Rightarrow> d | Some c \<Rightarrow> doit now i d)"

text \<open>The runner admits the head of the pending list (see above).\<close>

definition admit :: "nat \<Rightarrow> dequeue \<Rightarrow> dequeue" where
  "admit now d =
     (if canProcess d then
        (case pending d of
           [] \<Rightarrow> d
         | i # rest \<Rightarrow> doQueue now i (act (Dispatch i) (d\<lparr>pending := rest, current := Some i\<rparr>)))
      else d)"

text \<open>
  The comparisons of the timeout test convert their operands to numbers. The
  conversion of a string covers unsigned decimal numerals and the empty string;
  any other string counts as not a number.
\<close>

definition all_digits :: "string \<Rightarrow> bool" where
  "all_digits s = (\<forall>c\<in>set s. c \<in> set ''0123456789'')"

fun to_number :: "jsval \<Rightarrow> int option" where
  "to_number Undefined = None"
| "to_number Null = Some 0"
| "to_number (Bool b) = Some (if b then 1 else 0)"
| "to_number (Num n) = Some n"
| "to_number NaN = None"
| "to_number (Str s) = (if all_digits (trim s)
     then Some (foldl (\<lambda>a c. 10 * a + (int (of_char c) - 48)) 0 (trim s)) else None)"
| "to_number (Err _ _ _) = None"
| "to_number (Obj _ _) = None"

definition js_gt :: "jsval \<Rightarrow> jsval \<Rightarrow> bool" where
  "js_gt a b = (case (to_number a, to_number b) of (Some x, Some y) \<Rightarrow> x > y | _ \<Rightarrow> False)"

text \<open>
  The entries of the history in status \<open>processing\<close>, in history order. Every
  entry of the history is the address of an object.
\<close>

definition processing :: "dequeue \<Rightarrow> nat list" where
  "processing d = filter (\<lambda>i. i < length (heap d) \<and> status (heap d ! i) = STATUS_PROCESSING)
     (queues d)"

definition effective_timeout :: "dequeue \<Rightarrow> item \<Rightarrow> jsval" where
  "effective_timeout d q = (case data q of
      None \<Rightarrow> Num (timeout d)
    | Some m \<Rightarrow> if lookup m ''timeout'' \<noteq> Undefined then lookup m ''timeout'' else Num (timeout d))"

text \<open>
  The body \<open>f\<close> of the poll loop, run at clock reading \<open>now\<close>. Reading the start time
  of an item that has none throws.
\<close>

definition poll :: "nat \<Rightarrow> dequeue \<Rightarrow> exn + dequeue" where
  "poll now d =
     (case processing d of
        i # _ \<Rightarrow>
          (let q = heap d ! i in
           case qtime q of
             None \<Rightarrow> Inl TypeError
           | Some t \<Rightarrow>
               (let el = int now - int t; tmo = effective_timeout d q in
                if js_gt tmo (Num 0) \<and> js_gt (Num el) tmo then
                  (let d1 = on_item i (setStatus STATUS_TIMED_OUT) d in
                   if has_ontimeout q
                   then Inr ((act (OnTimeout i) d1)\<lparr>timingout := timingout d1 @ [i]\<rparr>)
                   else Inr (queue_next d1))
                else Inr d))
      | [] \<Rightarrow> if queues d \<noteq> [] then Inr (queue_next d) else Inr d)"

text \<open>\<open>setConsumer\<close> installs the poll loop and runs its body once at once.\<close>

definition setConsumer :: "nat \<Rightarrow> consumer_t option \<Rightarrow> dequeue \<Rightarrow> exn + dequeue" where
  "setConsumer now c d =
     (let d1 = d\<lparr>consumer := c\<rparr> in
      case c of None \<Rightarrow> Inr d1 | Some _ \<Rightarrow> poll now (d1\<lparr>polling := True\<rparr>))"

definition setInfo :: "(string \<times> jsval) list \<Rightarrow> dequeue \<Rightarrow> dequeue" where
  "setInfo i d = d\<lparr>info := i\<rparr>"

text \<open>
  \<open>genId\<close> hashes the decimal rendering of the clock reading with SHA-1 and keeps
  the first eight characters of the hexadecimal digest. The digest is the function
  \<open>digest\<close>, provided by the platform.
\<close>

definition genId :: "(string \<Rightarrow> string) \<Rightarrow> nat \<Rightarrow> string" where
  "genId digest now = take 8 (digest (nat_to_string now))"

record ack =
  ack_status :: string
  ack_id :: "string option"

text \<open>
  \<open>add_ref\<close> is the method \<open>add\<close> applied to the object at address \<open>a\<close>: the
  object gets an id if it has none, and its address is pushed on the history and
  handed to the runner. \<open>add\<close> is the submission of an object that the
  dispatcher has not seen before: the object \<open>q\<close> takes the next free address and
  \<open>add_ref\<close> runs on it.
\<close>

definition add_ref :: "(string \<Rightarrow> string) \<Rightarrow> nat \<Rightarrow> nat \<Rightarrow> dequeue \<Rightarrow> ack \<times> dequeue" where
  "add_ref digest now a d =
     (let d0 = (if \<not> truthy_str (qid (heap d ! a))
                then d\<lparr>heap := (heap d)[a := setId (genId digest now) (heap d ! a)]\<rparr> else d);
          d1 = d0\<lparr>queues := queues d0 @ [a]\<rparr>;
          d2 = requeue [a] (if qtype (heap d1 ! a) = Some QUEUE_CALLBACK then True else False) d1;
          d3 = queue_next d2
      in (\<lparr>ack_status = ''queued'', ack_id = qid (heap d1 ! a)\<rparr>, d3))"

definition add :: "(string \<Rightarrow> string) \<Rightarrow> nat \<Rightarrow> item \<Rightarrow> dequeue \<Rightarrow> ack \<times> dequeue" where
  "add digest now q d = add_ref digest now (length (heap d)) (d\<lparr>heap := heap d @ [q]\<rparr>)"

subsection \<open>Reports\<close>

record logrec =
  log_id :: "string option"
  log_type :: "string option"
  log_name :: "string option"
  log_time :: "nat option"
  log_status :: status
  log_result :: "jsval option"

fun is_object :: "jsval \<Rightarrow> bool" where
  "is_object (Obj _ _) = True"
| "is_object (Err _ _ _) = True"
| "is_object Null = True"
| "is_object _ = False"

text \<open>\<open>getLog\<close>; \<open>inspect\<close> is \<open>util.inspect\<close>.\<close>

definition getLog :: "(jsval \<Rightarrow> string) \<Rightarrow> bool \<Rightarrow> item \<Rightarrow> logrec" where
  "getLog inspect raw q =
     \<lparr> log_id = qid q, log_type = qtype q,
       log_name = (if truthy_str (getInfo q) then getInfo q else None),
       log_time = qtime q,
       log_status = status q,
       log_result = (if truthy (result q) then
           Some (if instanceof_Error (result q) then Str (to_string (result q))
                 else if \<not> raw \<and> is_object (result q) then Str (inspect (result q))
                 else result q)
         else None) \<rparr>"

text \<open>The fields of a status report.\<close>

datatype report_field = FVal jsval | FTime nat | FCount nat | FText string | FLog logrec

fun join_strings :: "string \<Rightarrow> string list \<Rightarrow> string" where
  "join_strings sep [] = []"
| "join_strings sep [s] = s"
| "join_strings sep (s # t # ss) = s @ sep @ join_strings sep (t # ss)"

definition buildInfo :: "(string \<times> jsval) list \<Rightarrow> (string \<rightharpoonup> report_field)" where
  "buildInfo i = (\<lambda>k. map_option FVal (map_of i k))"

definition getStatus :: "(jsval \<Rightarrow> string) \<Rightarrow> dequeue \<Rightarrow> (string \<rightharpoonup> report_field)" where
  "getStatus inspect d =
     (let st = (buildInfo (info d))
            (''time'' \<mapsto> FTime (time d),
             ''total'' \<mapsto> FCount (length (queues d)),
             ''queue'' \<mapsto> FCount (length (pending d)));
          proc = map (\<lambda>i. toString (heap d ! i)) (processing d);
          st1 = (if proc \<noteq> [] then st(''current'' \<mapsto> FText (join_strings ''<br/>'' proc)) else st)
      in case getLast d of
           None \<Rightarrow> st1
         | Some i \<Rightarrow> st1(''last'' \<mapsto> FLog (getLog inspect False (heap d ! i))))"

definition getLogs :: "(jsval \<Rightarrow> string) \<Rightarrow> bool \<Rightarrow> dequeue \<Rightarrow> logrec list" where
  "getLogs inspect raw d = map (\<lambda>a. getLog inspect raw (heap d ! a)) (queues d)"

subsection \<open>The module\<close>

text \<open>The module-level variable \<open>dequeue\<close> is unset until \<open>createDequeuer\<close> runs.\<close>

type_synonym module = "dequeue option"

definition createDequeuer :: "nat \<Rightarrow> module \<Rightarrow> dequeue \<times> module" where
  "createDequeuer now m = (case m of None \<Rightarrow> (new_dequeue now, Some (new_dequeue now))
     | Some d \<Rightarrow> (d, Some d))"

definition addQueue :: "(string \<Rightarrow> string) \<Rightarrow> nat \<Rightarrow> item \<Rightarrow> module \<Rightarrow> (exn + ack) \<times> module" where
  "addQueue digest now q m = (case m of
      None \<Rightarrow> (Inl (JsError ''No dequeue instance has been created!''), None)
    | Some d \<Rightarrow> (case add digest now q d of (a, d') \<Rightarrow> (Inr a, Some d')))"

definition hasPendingQueue :: "item \<Rightarrow> module \<Rightarrow> bool" where
  "hasPendingQueue q m = (case m of
      None \<Rightarrow> False
    | Some d \<Rightarrow> filter (\<lambda>p. qtype p = qtype q \<and> qinfo p = qinfo q
          \<and> status p \<in> set [STATUS_NEW, STATUS_PROCESSING]) (map (\<lambda>a. heap d ! a) (queues d)) \<noteq> [])"

subsection \<open>Runs\<close>

text \<open>
  What happens to a dispatcher whose caller submits every object once and whose
  hooks and listeners do not throw: the submission of a new object, the attachment
  of a consumer, an admission by the runner, the settlement of a \<open>processQueue\<close>,
  \<open>onretry\<close> or \<open>ontimeout\<close> promise, a tick of the poll loop, and an outside
  actor marking an item that is still \<open>new\<close> as skipped. A settlement is only
  possible for a promise that is outstanding, and a tick only once the loop is
  installed. The resubmission of an object and hooks that throw come below.
\<close>

datatype event =
    Add item
  | SetConsumer "consumer_t option"
  | Admit
  | Settle nat outcome
  | RetrySettled nat outcome
  | TimeoutSettled nat outcome
  | Tick
  | Skip nat

fun step :: "(string \<Rightarrow> string) \<Rightarrow> nat \<Rightarrow> event \<Rightarrow> dequeue \<Rightarrow> exn + dequeue" where
  "step digest now (Add q) d = Inr (snd (add digest now q d))"
| "step digest now (SetConsumer c) d = setConsumer now c d"
| "step digest now Admit d = Inr (admit now d)"
| "step digest now (Settle i oc) d =
     (if i \<in> set (inflight d) then
        (let d1 = d\<lparr>inflight := remove1 i (inflight d)\<rparr> in
         case oc of
           Fulfilled res \<Rightarrow> Inr (success i res d1)
         | Rejected err \<Rightarrow> Inr (retry_closure now i err d1))
      else Inr d)"
| "step digest now (RetrySettled i oc) d =
     (if i \<in> set (retrying d) then
        (let d1 = d\<lparr>retrying := remove1 i (retrying d)\<rparr> in
         case oc of
           Fulfilled _ \<Rightarrow> Inr (doit now i d1)
         | Rejected err \<Rightarrow> Inr (fail i err d1))
      else Inr d)"
| "step digest now (TimeoutSettled i oc) d =
     (if i \<in> set (timingout d) then Inr (queue_next (d\<lparr>timingout := remove1 i (timingout d)\<rparr>))
      else Inr d)"
| "step digest now Tick d = (if polling d then poll now d else Inr d)"
| "step digest now (Skip i) d =
     (if i < length (heap d) \<and> status (heap d ! i) = STATUS_NEW
      then Inr (on_item i (setStatus STATUS_SKIPPED) d) else Inr d)"

fun run :: "(string \<Rightarrow> string) \<Rightarrow> (nat \<times> event) list \<Rightarrow> dequeue \<Rightarrow> exn + dequeue" where
  "run digest [] d = Inr d"
| "run digest ((now, e) # es) d =
     (case step digest now e d of Inl x \<Rightarrow> Inl x | Inr d' \<Rightarrow> run digest es d')"

subsection \<open>Resubmission and throwing hooks\<close>

text \<open>
  The steps above submit every object once and let no hook or listener throw. Two
  more things can happen to a dispatcher. The caller can hand \<open>add\<close> an object the
  dispatcher already holds. And while \<open>success\<close> runs, the \<open>resolve\<close> hook of the
  item or a listener of \<open>queue-done\<close> can throw: the consumer call is set up as
  \<open>processQueue(queue).then(res => success(res)).catch(err => retry(err))\<close>, so
  the exception leaves \<open>success\<close> where it is thrown and is handed to \<open>retry\<close>.
  \<open>success_until\<close> is the part of \<open>success\<close> that has run by then. The rejection
  handler runs in the microtask that follows; the two are taken as one step.
\<close>

datatype throw_point = ResolveHook | DoneListener

definition success_until :: "throw_point \<Rightarrow> nat \<Rightarrow> jsval \<Rightarrow> dequeue \<Rightarrow> dequeue" where
  "success_until pt i res d =
     (let d1 = on_item i (done_item res) d;
          d2 = setLastQueue i d1;
          d3 = (if has_resolve (heap d2 ! i) then act (Resolve i res) d2 else d2)
      in case pt of ResolveHook \<Rightarrow> d3 | DoneListener \<Rightarrow> emit ''queue-done'' i d3)"

text \<open>
  An incident is a step as above, the resubmission of the object at an address, or
  the fulfilment of a consumer call whose \<open>success\<close> handler throws \<open>err\<close> at the
  given point. The \<open>resolve\<close> hook can only throw when the item has one.
\<close>

datatype incident =
    Regular event
  | Resubmit nat
  | SettleThrows nat jsval throw_point jsval

fun occur :: "(string \<Rightarrow> string) \<Rightarrow> nat \<Rightarrow> incident \<Rightarrow> dequeue \<Rightarrow> exn + dequeue" where
  "occur digest now (Regular e) d = step digest now e d"
| "occur digest now (Resubmit a) d =
     (if a < length (heap d) then Inr (snd (add_ref digest now a d)) else Inr d)"
| "occur digest now (SettleThrows i res pt err) d =
     (if i \<in> set (inflight d)
         \<and> (case pt of ResolveHook \<Rightarrow> has_resolve (heap d ! i) | DoneListener \<Rightarrow> True) then
        Inr (retry_closure now i err
               (success_until pt i res (d\<lparr>inflight := remove1 i (inflight d)\<rparr>)))
      else Inr d)"

fun run_any :: "(string \<Rightarrow> string) \<Rightarrow> (nat \<times> incident) list \<Rightarrow> dequeue \<Rightarrow> exn + dequeue" where
  "run_any digest [] d = Inr d"
| "run_any digest ((now, e) # es) d =
     (case occur digest now e d of Inl x \<Rightarrow> Inl x | Inr d' \<Rightarrow> run_any digest es d')"

section \<open>Notions used in the statements\<close>

text \<open>A consumer is attached.\<close>

definition attached :: "dequeue \<Rightarrow> bool" where
  "attached d = (case consumer d of None \<Rightarrow> False | Some _ \<Rightarrow> True)"

text \<open>
  The number of times the consumer's \<open>processQueue\<close> has been called for item
  \<open>i\<close>, and the number of retries the dispatcher has announced.
\<close>

definition attempts :: "nat \<Rightarrow> dequeue \<Rightarrow> nat" where
  "attempts i d = length (filter (\<lambda>a. a = ProcessQueue i) (trace d))"

fun is_retry :: "action \<Rightarrow> bool" where
  "is_retry (Console (RetryLine _ _)) = True"
| "is_retry _ = False"

definition retries :: "dequeue \<Rightarrow> nat" where
  "retries d = length (filter is_retry (trace d))"

text \<open>
  One failed attempt that leads to a retry: the consumer call of item \<open>i\<close> fails
  with \<open>err\<close> and, when the item has an \<open>onretry\<close> hook, the hook's promise is
  fulfilled.
\<close>

definition retry_round :: "nat \<Rightarrow> jsval \<Rightarrow> bool \<Rightarrow> nat \<Rightarrow> (nat \<times> event) list" where
  "retry_round i err hook t =
     (t, Settle i (Rejected err)) # (if hook then [(t, RetrySettled i (Fulfilled Undefined))] else [])"

definition retry_rounds :: "nat \<Rightarrow> jsval \<Rightarrow> bool \<Rightarrow> nat list \<Rightarrow> (nat \<times> event) list" where
  "retry_rounds i err hook ts = concat (map (retry_round i err hook) ts)"

definition count_of :: "nat option \<Rightarrow> nat" where
  "count_of rc = (case rc of None \<Rightarrow> 0 | Some k \<Rightarrow> k)"

text \<open>
  Item \<open>i\<close> has been dispatched: a consumer call for it is outstanding, a consumer
  is attached and the item is not skipped.
\<close>

definition flying :: "nat \<Rightarrow> dequeue \<Rightarrow> bool" where
  "flying i d = (i < length (heap d) \<and> i \<in> set (inflight d) \<and> attached d
     \<and> status (heap d ! i) \<noteq> STATUS_SKIPPED)"

text \<open>The field \<open>data.timeout\<close> of an item, \<open>undefined\<close> when there is no payload.\<close>

definition timeout_field :: "item \<Rightarrow> jsval" where
  "timeout_field q = (case data q of None \<Rightarrow> Undefined | Some m \<Rightarrow> lookup m ''timeout'')"

text \<open>The items the runner has admitted, in the order of admission.\<close>

fun dispatch_of :: "action \<Rightarrow> nat list" where
  "dispatch_of (Dispatch i) = [i]"
| "dispatch_of _ = []"

definition dispatched :: "dequeue \<Rightarrow> nat list" where
  "dispatched d = concat (map dispatch_of (trace d))"

text \<open>Item \<open>i\<close> is of type \<open>callback\<close>.\<close>

definition is_callback :: "dequeue \<Rightarrow> nat \<Rightarrow> bool" where
  "is_callback d i = (qtype (heap d ! i) = Some QUEUE_CALLBACK)"

text \<open>
  How one step can change the pending list, the admissions and the objects: not
  at all (only the contents of items other than their type may change); by
  storing a submitted object at the next address and putting it in front of or
  behind the pending items; or by admitting the head of the pending list.
\<close>

definition same_shape :: "dequeue \<Rightarrow> dequeue \<Rightarrow> bool" where
  "same_shape d d' = (pending d' = pending d \<and> dispatched d' = dispatched d
     \<and> map qtype (heap d') = map qtype (heap d))"

definition moves :: "dequeue \<Rightarrow> dequeue \<Rightarrow> bool" where
  "moves d d' = (same_shape d d'
     \<or> (\<exists>q. heap d' = heap d @ [q] \<and> dispatched d' = dispatched d
           \<and> pending d' = (if qtype q = Some QUEUE_CALLBACK
                 then length (heap d) # pending d else pending d @ [length (heap d)]))
     \<or> (\<exists>h. pending d = h # pending d' \<and> dispatched d' = dispatched d @ [h]
           \<and> map qtype (heap d') = map qtype (heap d)))"

text \<open>The pending list holds distinct addresses of objects.\<close>

definition tidy :: "dequeue \<Rightarrow> bool" where
  "tidy d = (distinct (pending d) \<and> (\<forall>x\<in>set (pending d). x < length (heap d)))"

text \<open>\<open>c\<close> occurs in the list \<open>xs\<close> before the first occurrence of \<open>p\<close>.\<close>

definition precedes :: "nat \<Rightarrow> nat \<Rightarrow> nat list \<Rightarrow> bool" where
  "precedes c p xs = (c \<in> set (takeWhile (\<lambda>x. x \<noteq> p) xs))"

text \<open>
  The items that are not callbacks, taken in the order admitted and then in the
  order pending, have increasing indices, that is they are in submission order.
\<close>

definition in_order :: "dequeue \<Rightarrow> bool" where
  "in_order d = (sorted_wrt (<) (filter (\<lambda>i. \<not> is_callback d i) (dispatched d @ pending d))
     \<and> (\<forall>x\<in>set (dispatched d @ pending d). x < length (heap d)))"

text \<open>A run that did not throw, and the state it ended in.\<close>

definition ok :: "exn + dequeue \<Rightarrow> bool" where
  "ok r = (case r of Inr _ \<Rightarrow> True | Inl _ \<Rightarrow> False)"

definition the_state :: "exn + dequeue \<Rightarrow> dequeue" where
  "the_state r = (case r of Inr d \<Rightarrow> d | Inl _ \<Rightarrow> new_dequeue 0)"

text \<open>
  The changes of status the dispatcher can make to an item in one step: none;
  from \<open>new\<close> to \<open>processing\<close> or \<open>skipped\<close>; from \<open>processing\<close> to \<open>done\<close>,
  \<open>error\<close> or \<open>timeout\<close>; and from \<open>timeout\<close> back to \<open>processing\<close> or on to
  \<open>done\<close> or \<open>error\<close>.
\<close>

definition allowed :: "status \<Rightarrow> status \<Rightarrow> bool" where
  "allowed s s' = (s' = s
     \<or> (s = STATUS_NEW \<and> (s' = STATUS_PROCESSING \<or> s' = STATUS_SKIPPED))
     \<or> (s = STATUS_PROCESSING \<and> (s' = STATUS_DONE \<or> s' = STATUS_ERROR \<or> s' = STATUS_TIMED_OUT))
     \<or> (s = STATUS_TIMED_OUT \<and> (s' = STATUS_PROCESSING \<or> s' = STATUS_DONE \<or> s' = STATUS_ERROR)))"

text \<open>The statuses of an item that is not yet started, and of one that has been started.\<close>

definition waiting :: "status \<Rightarrow> bool" where
  "waiting s = (s = STATUS_NEW \<or> s = STATUS_SKIPPED)"

definition running :: "status \<Rightarrow> bool" where
  "running s = (s = STATUS_PROCESSING \<or> s = STATUS_TIMED_OUT)"

text \<open>
  The bookkeeping invariant of the runs in which every object is submitted once:
  pending items are objects not yet started, items with an unsettled consumer
  call or \<open>onretry\<close> promise are objects that are started, and no item is in two
  of these lists or twice in one.
\<close>

definition consistent :: "dequeue \<Rightarrow> bool" where
  "consistent d =
     ((\<forall>i\<in>set (pending d). i < length (heap d) \<and> waiting (status (heap d ! i)))
      \<and> (\<forall>i\<in>set (inflight d @ retrying d). i < length (heap d) \<and> running (status (heap d ! i)))
      \<and> distinct (pending d @ inflight d @ retrying d))"

text \<open>An event that submits an item submits one in status \<open>new\<close>, as the factories build it.\<close>

definition submits_new :: "event \<Rightarrow> bool" where
  "submits_new e = (case e of Add q \<Rightarrow> status q = STATUS_NEW | _ \<Rightarrow> True)"

text \<open>Item \<open>i\<close> is in none of the three lists.\<close>

definition free :: "nat \<Rightarrow> dequeue \<Rightarrow> bool" where
  "free i d = (i \<notin> set (pending d) \<and> i \<notin> set (inflight d) \<and> i \<notin> set (retrying d))"

text \<open>
  \<open>d'\<close> arises from \<open>d\<close> by replacing item \<open>i\<close>, the pending list staying as it is;
  and every change of status from \<open>d\<close> to \<open>d'\<close> is an allowed one.
\<close>

definition changes :: "nat \<Rightarrow> dequeue \<Rightarrow> dequeue \<Rightarrow> bool" where
  "changes i d d' = (pending d' = pending d \<and> (\<exists>q'. heap d' = (heap d)[i := q']))"

definition steady :: "dequeue \<Rightarrow> dequeue \<Rightarrow> bool" where
  "steady d d' = (\<forall>j<length (heap d). allowed (status (heap d ! j)) (status (heap d' ! j)))"

text \<open>The statuses that no step leaves.\<close>

definition final :: "status \<Rightarrow> bool" where
  "final s = (s = STATUS_DONE \<or> s = STATUS_ERROR \<or> s = STATUS_SKIPPED)"

text \<open>
  The statuses of an item whose consumer has been called at least once, and the
  changes of status that one incident can make when objects may be resubmitted
  and hooks may throw: none; from \<open>new\<close> to \<open>processing\<close> or \<open>skipped\<close>; from
  \<open>processing\<close> to \<open>timeout\<close>; and from any status of a started item to
  \<open>processing\<close>, \<open>done\<close> or \<open>error\<close>.
\<close>

definition started :: "status \<Rightarrow> bool" where
  "started s = (s = STATUS_PROCESSING \<or> s = STATUS_DONE \<or> s = STATUS_ERROR \<or> s = STATUS_TIMED_OUT)"

definition possible :: "status \<Rightarrow> status \<Rightarrow> bool" where
  "possible s s' = (s' = s
     \<or> (s = STATUS_NEW \<and> (s' = STATUS_PROCESSING \<or> s' = STATUS_SKIPPED))
     \<or> (s = STATUS_PROCESSING \<and> s' = STATUS_TIMED_OUT)
     \<or> (started s \<and> (s' = STATUS_PROCESSING \<or> s' = STATUS_DONE \<or> s' = STATUS_ERROR)))"

definition evolves :: "dequeue \<Rightarrow> dequeue \<Rightarrow> bool" where
  "evolves d d' = (\<forall>j<length (heap d). possible (status (heap d ! j)) (status (heap d' ! j)))"

text \<open>
  The invariant of all runs: the three lists hold addresses of objects, and an
  item with an unsettled consumer call or \<open>onretry\<close> promise has been started.
\<close>

definition sound :: "dequeue \<Rightarrow> bool" where
  "sound d =
     ((\<forall>a\<in>set (pending d). a < length (heap d))
      \<and> (\<forall>a\<in>set (inflight d @ retrying d). a < length (heap d) \<and> started (status (heap d ! a))))"

text \<open>
  An incident of a run in which every object is submitted once, in status \<open>new\<close>,
  and no hook or listener throws; and such a run made of the given steps.
\<close>

definition regular_new :: "incident \<Rightarrow> bool" where
  "regular_new e = (case e of Regular e0 \<Rightarrow> submits_new e0 | _ \<Rightarrow> False)"

definition regular :: "(nat \<times> event) list \<Rightarrow> (nat \<times> incident) list" where
  "regular es = map (\<lambda>(t, e). (t, Regular e)) es"

text \<open>
  The items for which the dispatcher has emitted \<open>queue-done\<close> or \<open>queue-error\<close>,
  in the order of the emissions, and the last of them that is not a callback.
\<close>

fun settled_of :: "action \<Rightarrow> nat list" where
  "settled_of (Emit name i) = (if name = ''queue-done'' \<or> name = ''queue-error'' then [i] else [])"
| "settled_of _ = []"

definition settled :: "dequeue \<Rightarrow> nat list" where
  "settled d = concat (map settled_of (trace d))"

definition last_settled :: "dequeue \<Rightarrow> nat option" where
  "last_settled d = (case filter (\<lambda>i. \<not> is_callback d i) (settled d) of
      [] \<Rightarrow> None | x # xs \<Rightarrow> Some (last (x # xs)))"

section \<open>The templates as the specification words them\<close>

text \<open>
  The specification describes \<open>CONCAT:sep|ref1|ref2|...\<close> as: split on \<open>|\<close>, take the
  first token as the separator, resolve every other token (trimmed) through the
  field resolver and join the values with the separator; and
  \<open>FORMAT:template|ref1|ref2|...\<close> as: take the first token as the template and
  replace every occurrence of \<open>%N%\<close> by the N-th resolved value. These definitions
  follow those words; the replacement is literal.
\<close>

definition spec_resolve :: "item \<Rightarrow> string \<Rightarrow> jsval" where
  "spec_resolve q n = (case getDataValue q (KStr (trim n)) of Inr v \<Rightarrow> v | Inl _ \<Rightarrow> Undefined)"

definition spec_CONCAT :: "item \<Rightarrow> string \<Rightarrow> string" where
  "spec_CONCAT q spec = (case split_on CHR ''|'' spec of
      separator # refs \<Rightarrow> join separator (map (spec_resolve q) refs)
    | [] \<Rightarrow> [])"

function replace_every :: "string \<Rightarrow> string \<Rightarrow> string \<Rightarrow> string" where
  "replace_every pat rep s =
     (if s = [] \<or> pat = [] then s
      else if prefix pat s then rep @ replace_every pat rep (drop (length pat) s)
      else hd s # replace_every pat rep (tl s))"
  by pat_completeness auto
termination
  by (relation "measure (\<lambda>(p, r, s). length s)") auto

declare replace_every.simps [simp del]

fun spec_fill :: "string \<Rightarrow> nat \<Rightarrow> jsval list \<Rightarrow> string" where
  "spec_fill t n [] = t"
| "spec_fill t n (v # vs) =
     spec_fill (replace_every (''%'' @ nat_to_string n @ ''%'') (to_string v) t) (Suc n) vs"

definition spec_FORMAT :: "item \<Rightarrow> string \<Rightarrow> string" where
  "spec_FORMAT q spec = (case split_on CHR ''|'' spec of
      template # refs \<Rightarrow> spec_fill template 1 (map (spec_resolve q) refs)
    | [] \<Rightarrow> [])"

section \<open>Example items\<close>

text \<open>The payloads \<open>{a: "X", b: "Y"}\<close> and \<open>{name: "Bob"}\<close>.\<close>

definition ex_concat :: item where
  "ex_concat = new_item\<lparr>data := Some [''a'' \<mapsto> Str ''X'', ''b'' \<mapsto> Str ''Y'']\<rparr>"

definition ex_format :: item where
  "ex_format = new_item\<lparr>data := Some [''name'' \<mapsto> Str ''Bob'']\<rparr>"

text \<open>
  A consumer that is ready and approves no second item; an item of type \<open>spp\<close>
  with an empty payload; and a digest function that agrees with SHA-1 on the
  strings \<open>0\<close>, \<open>1\<close> and the empty string. The examples hash only \<open>0\<close> and
  \<open>1\<close>.
\<close>

definition always_ready :: consumer_t where
  "always_ready = \<lparr>canProcessQueue = True, canHandleNextQueue = (\<lambda>_. False)\<rparr>"

definition sha1_sample :: "string \<Rightarrow> string" where
  "sha1_sample s =
     (if s = ''0'' then ''b6589fc6ab0dc82cf12099d1c2d40ab994e8410c''
      else if s = ''1'' then ''356a192b7913b04c54574d18c28d46e6395428ab''
      else ''da39a3ee5e6b4b0d3255bfef95601890afd80709'')"

definition spp_item :: item where
  "spp_item = createSppQueue (Some Map.empty) None"

definition hex_chars :: "char set" where
  "hex_chars = set ''0123456789abcdef''"

text \<open>Two items submitted and both admitted.\<close>

definition two_processing :: "(nat \<times> event) list" where
  "two_processing = [(0, SetConsumer (Some always_ready)), (0, Add spp_item), (0, Add spp_item),
     (1, Admit), (2, Admit)]"

text \<open>
  An item that opted into retries, a retryable error, and the dispatcher after the
  item was submitted and admitted, its first consumer call outstanding.
\<close>

definition retry_error :: jsval where
  "retry_error = Err 1 SiapRetryError ''SiapRetryError''"

definition retry_item :: item where
  "retry_item = spp_item\<lparr>qretry := True\<rparr>"

definition first_attempt_events :: "(nat \<times> event) list" where
  "first_attempt_events = [(0, SetConsumer (Some always_ready)), (0, Add retry_item), (1, Admit)]"

definition first_attempt :: dequeue where
  "first_attempt = the_state (run sha1_sample first_attempt_events (new_dequeue 0))"

text \<open>
  An item with \<open>data.timeout = 200\<close> and the dispatcher after the item was
  submitted and admitted at clock reading 1000, its consumer call never settling.
\<close>

definition timeout_item :: item where
  "timeout_item = createSppQueue (Some [''timeout'' \<mapsto> Num 200]) None"

definition hanging_events :: "(nat \<times> event) list" where
  "hanging_events = [(0, SetConsumer (Some always_ready)), (0, Add timeout_item), (1000, Admit)]"

definition hanging :: dequeue where
  "hanging = the_state (run sha1_sample hanging_events (new_dequeue 0))"

text \<open>
  The scenario of the specification: an item is submitted while the consumer is
  not ready, then a callback item is submitted, then the consumer becomes ready
  and the runner admits twice.
\<close>

definition not_ready :: consumer_t where
  "not_ready = \<lparr>canProcessQueue = False, canHandleNextQueue = (\<lambda>_. False)\<rparr>"

definition callback_item :: item where
  "callback_item = createCallbackQueue (Some Map.empty) (Some ''http://localhost/done'')"

definition busy_events :: "(nat \<times> event) list" where
  "busy_events = [(0, SetConsumer (Some not_ready)), (0, Add spp_item)]"

definition one_pending :: dequeue where
  "one_pending = the_state (run sha1_sample busy_events (new_dequeue 0))"

definition ready_events :: "(nat \<times> event) list" where
  "ready_events = [(2, SetConsumer (Some always_ready)), (3, Admit), (4, Admit)]"

definition both_dispatched :: dequeue where
  "both_dispatched = the_state
     (run sha1_sample ready_events (snd (add sha1_sample 1 callback_item one_pending)))"

text \<open>
  An object submitted twice: the item is submitted, the same object is submitted
  again, the runner admits it once and its consumer call is fulfilled.
\<close>

definition twice_events :: "(nat \<times> incident) list" where
  "twice_events = [(0, Regular (SetConsumer (Some always_ready))), (0, Regular (Add spp_item)),
     (0, Resubmit 0), (1, Regular Admit), (2, Regular (Settle 0 (Fulfilled (Str ''ok''))))]"

text \<open>
  An item with a \<open>resolve\<close> hook that throws: the item is submitted and admitted,
  its consumer call is fulfilled and the hook throws an error.
\<close>

definition hooked_item :: item where
  "hooked_item = spp_item\<lparr>has_resolve := True\<rparr>"

definition throwing_events :: "(nat \<times> incident) list" where
  "throwing_events = [(0, Regular (SetConsumer (Some always_ready))), (0, Regular (Add hooked_item)),
     (1, Regular Admit),
     (2, SettleThrows 0 (Str ''ok'') ResolveHook (Err 1 PlainError ''Error: hook''))]"

text \<open>
  Two items submitted one millisecond apart; the first is admitted and its consumer
  call fulfilled, then the second is admitted.
\<close>

definition served_events :: "(nat \<times> event) list" where
  "served_events = [(0, SetConsumer (Some always_ready)), (0, Add spp_item), (1, Add spp_item),
     (2, Admit), (3, Settle 0 (Fulfilled (Str ''ok''))), (4, Admit)]"

definition served :: dequeue where
  "served = the_state (run sha1_sample served_events (new_dequeue 0))"

section \<open>Facts about the string functions\<close>

lemma split_on_none: "c \<notin> set s \<Longrightarrow> split_on c s = [s]"
  by (induction s) auto

lemma indexOf_notin: "c \<notin> set s \<Longrightarrow> indexOf c s = - 1"
  by (induction s) (auto simp: Let_def)

lemma split_on_set: "w \<in> set (split_on c s) \<Longrightarrow> x \<in> set w \<Longrightarrow> x \<in> set s"
proof (induction s arbitrary: w)
  case Nil
  then show ?case by simp
next
  case (Cons a s)
  obtain u us where u: "split_on c s = u # us"
    using split_on_nonempty by (cases "split_on c s") auto
  show ?case
  proof (cases "a = c")
    case True
    with Cons show ?thesis by auto
  next
    case False
    with Cons.prems u have "w = a # u \<or> w \<in> set us" by simp
    then show ?thesis
    proof
      assume "w = a # u"
      with Cons.prems(2) have "x = a \<or> x \<in> set u" by simp
      then show ?thesis using Cons.IH [of u] u by auto
    next
      assume "w \<in> set us"
      then show ?thesis using Cons.IH [of w] Cons.prems(2) u by simp
    qed
  qed
qed

lemma set_trim: "set (trim s) \<subseteq> set s"
  by (auto simp: trim_def dest!: set_dropWhileD)

lemma getDataValue_plain:
  "data q = Some d \<Longrightarrow> CHR '':'' \<notin> set k \<Longrightarrow> getDataValue q (KStr k) = Inr (lookup d k)"
  by (simp add: getDataValue.simps indexOf_notin)

lemma expand_replacement_plain:
  "CHR ''$'' \<notin> set rep \<Longrightarrow> expand_replacement m b a rep = rep"
  by (induction m b a rep rule: expand_replacement.induct) auto


lemma replace_global_plain:
  "CHR ''$'' \<notin> set rep \<Longrightarrow> replace_global pat rep pre s = replace_every pat rep s"
proof (induction pat rep pre s rule: replace_global.induct)
  case (1 pat rep pre s)
  show ?case
    apply (subst replace_global.simps)
    apply (subst replace_every.simps)
    using 1 by (simp add: expand_replacement_plain)
qed

lemma format_fold_plain:
  "\<forall>v\<in>set vs. CHR ''$'' \<notin> set (to_string v) \<Longrightarrow> format_fold t i vs = spec_fill t (Suc i) vs"
  by (induction vs arbitrary: t i) (simp_all add: replace_global_plain)

lemma resolve_refs:
  assumes "data q = Some d" and "\<forall>n\<in>set refs. CHR '':'' \<notin> set n"
  shows "sequence (map (\<lambda>n. getDataValue q (KStr (trim n))) refs) = Inr (map (spec_resolve q) refs)"
  using assms(2)
proof (induction refs)
  case Nil
  then show ?case by simp
next
  case (Cons n refs)
  have "CHR '':'' \<notin> set (trim n)" using Cons.prems set_trim by fastforce
  then have "getDataValue q (KStr (trim n)) = Inr (lookup d (trim n))"
    using assms(1) by (rule getDataValue_plain [rotated])
  with Cons show ?case by (simp add: spec_resolve_def)
qed



section \<open>Idempotent setters\<close>

text \<open>
  C9. Setting the status an item already has, or a result that is \<open>===\<close> the one it
  already has, changes nothing and prints nothing; a result that differs is stored
  and printed once.
\<close>

theorem setters_idempotent:
  "setStatus (status q) q = (q, [])
   \<and> (strict_eq (result q) r \<longrightarrow> setResult r q = (q, []))
   \<and> (\<not> strict_eq (result q) r \<longrightarrow>
        result (fst (setResult r q)) = r \<and> length (snd (setResult r q)) = 1)"
  by (simp add: setStatus_def setResult_def Let_def)

theorem setters_idempotent_witness:
  "setStatus (status new_item) new_item = (new_item, [])
   \<and> setResult Undefined new_item = (new_item, [])
   \<and> result (fst (setResult (Str ''ok'') new_item)) = Str ''ok''
   \<and> length (snd (setResult (Str ''ok'') new_item)) = 1"
  using setters_idempotent [of new_item Undefined] setters_idempotent [of new_item "Str ''ok''"]
  by (simp add: new_item_def)


section \<open>The field resolver\<close>

text \<open>
  C6 (as amended). For a payload \<open>d\<close> and a specification string without a second
  colon: a key \<open>CONCAT:SPEC\<close> that is not itself a payload key resolves to the
  values of the references joined by the separator, and a key \<open>FORMAT:SPEC\<close>
  that is not a payload key resolves to the template with every \<open>%N%\<close> replaced
  by the N-th resolved value, provided no resolved value contains a dollar sign
  (which \<open>String.prototype.replace\<close> would interpret).
\<close>

theorem template_keys:
  assumes "data q = Some d"
    and "CHR '':'' \<notin> set spec"
  shows "(lookup d (''CONCAT:'' @ spec) = Undefined \<longrightarrow>
           getDataValue q (KStr (''CONCAT:'' @ spec)) = Inr (Str (spec_CONCAT q spec)))
       \<and> (lookup d (''FORMAT:'' @ spec) = Undefined
            \<and> (\<forall>n\<in>set (tl (split_on CHR ''|'' spec)). CHR ''$'' \<notin> set (to_string (spec_resolve q n))) \<longrightarrow>
           getDataValue q (KStr (''FORMAT:'' @ spec)) = Inr (Str (spec_FORMAT q spec)))"
proof -
  obtain t refs where toks: "split_on CHR ''|'' spec = t # refs"
    using split_on_nonempty by (cases "split_on CHR ''|'' spec") auto
  have nocolon: "\<forall>n\<in>set refs. CHR '':'' \<notin> set n"
    using split_on_set [of _ "CHR ''|''" spec] toks assms(2) by auto
  have seq: "sequence (map (\<lambda>n. getDataValue q (KStr (trim n))) refs) = Inr (map (spec_resolve q) refs)"
    using assms(1) nocolon by (rule resolve_refs)
  have tc: "getTranslatedValue q (''CONCAT:'' @ spec) = Inr (Str (spec_CONCAT q spec))"
    by (subst getTranslatedValue.simps) (simp add: split_on_none assms(2) toks seq spec_CONCAT_def)
  have tf: "\<forall>n\<in>set refs. CHR ''$'' \<notin> set (to_string (spec_resolve q n)) \<Longrightarrow>
      getTranslatedValue q (''FORMAT:'' @ spec) = Inr (Str (spec_FORMAT q spec))"
    by (subst getTranslatedValue.simps) (simp add: split_on_none assms(2) toks seq spec_FORMAT_def format_fold_plain)
  show ?thesis
    using tc tf assms(1) toks by (simp add: getDataValue.simps)
qed


lemma ex_concat_spec: "spec_CONCAT ex_concat '',|a|b'' = ''X,Y''"
  by code_simp

lemma ex_format_spec: "spec_FORMAT ex_format ''Hello %1%|name'' = ''Hello Bob''"
  by code_simp

lemma ex_format_no_dollar:
  "\<forall>n\<in>set (tl (split_on CHR ''|'' ''Hello %1%|name'')).
     CHR ''$'' \<notin> set (to_string (spec_resolve ex_format n))"
  by code_simp

text \<open>The two examples of the specification, obtained from the theorem.\<close>

theorem template_keys_witness:
  "getDataValue ex_concat (KStr ''CONCAT:,|a|b'') = Inr (Str ''X,Y'')
   \<and> getDataValue ex_format (KStr ''FORMAT:Hello %1%|name'') = Inr (Str ''Hello Bob'')"
proof -
  have a: "data ex_concat = Some [''a'' \<mapsto> Str ''X'', ''b'' \<mapsto> Str ''Y'']"
    by (simp add: ex_concat_def)
  have b: "data ex_format = Some [''name'' \<mapsto> Str ''Bob'']"
    by (simp add: ex_format_def)
  have 1: "getDataValue ex_concat (KStr ''CONCAT:,|a|b'')
      = Inr (Str (spec_CONCAT ex_concat '',|a|b''))"
    using template_keys [OF a, of "'',|a|b''"] by (simp add: lookup_def)
  have 2: "getDataValue ex_format (KStr ''FORMAT:Hello %1%|name'')
      = Inr (Str (spec_FORMAT ex_format ''Hello %1%|name''))"
    using template_keys [OF b, of "''Hello %1%|name''"] ex_format_no_dollar
    by (simp add: lookup_def)
  show ?thesis using 1 2 ex_concat_spec ex_format_spec by simp
qed

text \<open>
  The claim as stated fails when the specification string itself contains a colon:
  with the separator \<open>": "\<close> the key is \<open>CONCAT:: |a|b\<close>, it is not a payload key,
  the specification's reading gives \<open>"X: Y"\<close>, and the code, which keeps only the
  text between the first two colons, gives the empty string.
\<close>

theorem template_keys_counterexample:
  "lookup [''a'' \<mapsto> Str ''X'', ''b'' \<mapsto> Str ''Y''] ''CONCAT:: |a|b'' = Undefined
   \<and> spec_CONCAT ex_concat '': |a|b'' = ''X: Y''
   \<and> getDataValue ex_concat (KStr ''CONCAT:: |a|b'') = Inr (Str [])"
  by code_simp

section \<open>Mapped data without a map\<close>

text \<open>
  C7 (as amended). For an item whose \<open>maps\<close> field is unset, \<open>getMappedData\<close>
  returns \<open>undefined\<close> for every name: \<open>getMap\<close> yields \<open>undefined\<close>, which is
  not a string, so the field resolver looks nothing up.
\<close>

theorem getMappedData_without_maps:
  "maps q = None \<Longrightarrow> getMappedData name q = Inr Undefined"
  by (simp add: getMappedData_def getMap_def getDataValue.simps)

theorem getMappedData_without_maps_witness:
  "maps ex_concat = None \<and> getMappedData (NameStr ''a'') ex_concat = Inr Undefined"
proof -
  have m: "maps ex_concat = None" by (simp add: ex_concat_def new_item_def)
  show ?thesis using m getMappedData_without_maps [OF m, of "NameStr ''a''"] by simp
qed

text \<open>
  The claim as stated fails: \<open>a\<close> is a payload key whose value the field resolver
  yields, the item has no map, and \<open>getMappedData\<close> returns \<open>undefined\<close>.
\<close>

theorem getMappedData_counterexample:
  "maps ex_concat = None
   \<and> getDataValue ex_concat (KStr ''a'') = Inr (Str ''X'')
   \<and> getMappedData (NameStr ''a'') ex_concat \<noteq> Inr (Str ''X'')"
  by code_simp

section \<open>Submission without a dispatcher\<close>

text \<open>
  C10. While the module variable is unset, which it is until \<open>createDequeuer\<close> runs,
  \<open>addQueue\<close> throws the error \<open>No dequeue instance has been created!\<close> and leaves
  the variable unset, so nothing is enqueued or recorded. Once \<open>createDequeuer\<close>
  has run, \<open>addQueue\<close> returns the acknowledgement of the singleton's \<open>add\<close>.
\<close>

theorem addQueue_needs_dequeuer:
  "addQueue digest now q None = (Inl (JsError ''No dequeue instance has been created!''), None)
   \<and> addQueue digest now q (snd (createDequeuer t m))
       = (Inr (fst (add digest now q (fst (createDequeuer t m)))),
          Some (snd (add digest now q (fst (createDequeuer t m)))))"
  by (simp add: addQueue_def createDequeuer_def split: option.splits prod.splits)

section \<open>The submission of a new object\<close>

text \<open>What \<open>add\<close> does with an object the dispatcher has not seen before.\<close>

lemma add_eq:
  "add digest now q d =
     (let q1 = (if \<not> truthy_str (qid q) then setId (genId digest now) q else q);
          i = length (heap d);
          d1 = d\<lparr>heap := heap d @ [q1], queues := queues d @ [i]\<rparr>;
          d2 = requeue [i] (if qtype q1 = Some QUEUE_CALLBACK then True else False) d1;
          d3 = queue_next d2
      in (\<lparr>ack_status = ''queued'', ack_id = qid q1\<rparr>, d3))"
  by (simp add: add_def add_ref_def Let_def requeue_def queue_next_def act_def setId_def)

section \<open>Identifiers\<close>

lemma genId_hex:
  assumes "\<forall>s. length (digest s) = 40 \<and> set (digest s) \<subseteq> hex_chars"
  shows "length (genId digest now) = 8 \<and> set (genId digest now) \<subseteq> hex_chars"
proof -
  have "set (take 8 (digest (nat_to_string now))) \<subseteq> set (digest (nat_to_string now))"
    by (rule set_take_subset)
  with assms show ?thesis by (auto simp: genId_def)
qed

lemma sha1_sample_hex: "\<forall>s. length (sha1_sample s) = 40 \<and> set (sha1_sample s) \<subseteq> hex_chars"
  by (simp add: sha1_sample_def hex_chars_def)

text \<open>
  C5 (as amended). Let the digest be forty lowercase hexadecimal characters, as a
  SHA-1 digest is. For an item without an id, \<open>add\<close> returns the acknowledgement
  \<open>{status: "queued", id}\<close> where \<open>id\<close> is the first eight characters of the digest
  of the decimal clock reading; it stores the item with that id and puts it at the
  end of the history; the id is eight lowercase hexadecimal characters; and an item
  that has this id keeps it when it is added again, as a new object or as the
  object the dispatcher already holds. The id is a function of the clock reading
  alone, so nothing makes it unique.
\<close>

theorem add_assigns_id:
  assumes "\<forall>s. length (digest s) = 40 \<and> set (digest s) \<subseteq> hex_chars"
    and "\<not> truthy_str (qid q)"
  shows "add digest now q d =
           (\<lparr>ack_status = ''queued'', ack_id = Some (genId digest now)\<rparr>,
            snd (add digest now q d))
       \<and> heap (snd (add digest now q d)) = heap d @ [q\<lparr>qid := Some (genId digest now)\<rparr>]
       \<and> queues (snd (add digest now q d)) = queues d @ [length (heap d)]
       \<and> length (genId digest now) = 8 \<and> set (genId digest now) \<subseteq> hex_chars
       \<and> heap (snd (add digest now' (q\<lparr>qid := Some (genId digest now)\<rparr>) d'))
           = heap d' @ [q\<lparr>qid := Some (genId digest now)\<rparr>]
       \<and> (qid (heap d' ! a) = Some (genId digest now) \<longrightarrow>
            heap (snd (add_ref digest now' a d')) = heap d'
            \<and> queues (snd (add_ref digest now' a d')) = queues d' @ [a])"
proof -
  have h: "length (genId digest now) = 8 \<and> set (genId digest now) \<subseteq> hex_chars"
    using assms(1) by (rule genId_hex)
  then have t: "truthy_str (Some (genId digest now))"
    by (auto simp: truthy_str_def)
  have 1: "add digest now q d =
           (\<lparr>ack_status = ''queued'', ack_id = Some (genId digest now)\<rparr>,
            snd (add digest now q d))
       \<and> heap (snd (add digest now q d)) = heap d @ [q\<lparr>qid := Some (genId digest now)\<rparr>]
       \<and> queues (snd (add digest now q d)) = queues d @ [length (heap d)]
       \<and> heap (snd (add digest now' (q\<lparr>qid := Some (genId digest now)\<rparr>) d'))
           = heap d' @ [q\<lparr>qid := Some (genId digest now)\<rparr>]"
    using assms(2) t
    by (simp add: add_eq Let_def setId_def requeue_def queue_next_def act_def)
  have 2: "qid (heap d' ! a) = Some (genId digest now) \<longrightarrow>
            heap (snd (add_ref digest now' a d')) = heap d'
            \<and> queues (snd (add_ref digest now' a d')) = queues d' @ [a]"
    using t by (simp add: add_ref_def Let_def requeue_def queue_next_def act_def)
  show ?thesis using 1 2 h by simp
qed

theorem add_assigns_id_witness:
  "add sha1_sample 0 spp_item (new_dequeue 0) =
      (\<lparr>ack_status = ''queued'', ack_id = Some ''b6589fc6''\<rparr>,
       snd (add sha1_sample 0 spp_item (new_dequeue 0)))
   \<and> map qid (heap (snd (add sha1_sample 0 spp_item (new_dequeue 0)))) = [Some ''b6589fc6'']
   \<and> queues (snd (add sha1_sample 0 spp_item (new_dequeue 0))) = [0]
   \<and> qid (heap (snd (add sha1_sample 0 spp_item (new_dequeue 0))) ! 0) = Some ''b6589fc6''
   \<and> heap (snd (add_ref sha1_sample 1 0 (snd (add sha1_sample 0 spp_item (new_dequeue 0)))))
       = heap (snd (add sha1_sample 0 spp_item (new_dequeue 0)))
   \<and> queues (snd (add_ref sha1_sample 1 0 (snd (add sha1_sample 0 spp_item (new_dequeue 0)))))
       = [0, 0]"
proof -
  have n: "\<not> truthy_str (qid spp_item)"
    by (simp add: spp_item_def createSppQueue_def create_def setData_def setType_def
        new_item_def truthy_str_def)
  have g: "genId sha1_sample 0 = ''b6589fc6''"
    by code_simp
  have e: "heap (new_dequeue 0) = []" "queues (new_dequeue 0) = []"
    by (simp_all add: new_dequeue_def)
  show ?thesis
    using add_assigns_id [OF sha1_sample_hex n, of 0 "new_dequeue 0" 0 "new_dequeue 0" 0]
      add_assigns_id [OF sha1_sample_hex n, of 0 "new_dequeue 0" 1
        "snd (add sha1_sample 0 spp_item (new_dequeue 0))" 0] g e
    by simp
qed

text \<open>
  The claim as stated fails: two items without an id, added at the same clock
  reading, are acknowledged with the same id.
\<close>

theorem add_ids_counterexample:
  "ack_id (fst (add sha1_sample 0 spp_item (new_dequeue 0)))
   = ack_id (fst (add sha1_sample 0 spp_item (snd (add sha1_sample 0 spp_item (new_dequeue 0)))))"
  by code_simp

section \<open>Facts shared by the proofs about the dispatcher\<close>

lemma act_simps [simp]:
  "heap (act a d) = heap d" "pending (act a d) = pending d" "consumer (act a d) = consumer d"
  "retry (act a d) = retry d" "inflight (act a d) = inflight d" "retrying (act a d) = retrying d"
  "timingout (act a d) = timingout d" "trace (act a d) = trace d @ [a]" "timeout (act a d) = timeout d"
  "lastq (act a d) = lastq d" "polling (act a d) = polling d" "current (act a d) = current d"
  "time (act a d) = time d" "info (act a d) = info d"
  by (simp_all add: act_def)

lemma on_item_simps [simp]:
  "heap (on_item i m d) = (heap d)[i := fst (m (heap d ! i))]"
  "pending (on_item i m d) = pending d" "consumer (on_item i m d) = consumer d"
  "retry (on_item i m d) = retry d" "inflight (on_item i m d) = inflight d"
  "retrying (on_item i m d) = retrying d" "timingout (on_item i m d) = timingout d"
  "trace (on_item i m d) = trace d @ map Console (snd (m (heap d ! i)))"
  "timeout (on_item i m d) = timeout d" "lastq (on_item i m d) = lastq d"
  "polling (on_item i m d) = polling d" "current (on_item i m d) = current d"
  "time (on_item i m d) = time d" "info (on_item i m d) = info d"
  by (simp_all add: on_item_def split: prod.splits)

lemma start_fields [simp]:
  "status (fst (start now q)) = STATUS_PROCESSING"
  "qretry (fst (start now q)) = qretry q"
  "retryCount (fst (start now q)) = retryCount q"
  "has_onretry (fst (start now q)) = has_onretry q"
  "qtype (fst (start now q)) = qtype q"
  "qtime (fst (start now q)) = Some now"
  by (simp_all add: start_def setStatus_def setTime_def Let_def)

lemma filter_console [simp]: "filter (\<lambda>a. a = ProcessQueue i) (map Console ls) = []"
  by (induction ls) auto

lemma doit_retry_state:
  assumes "i < length (heap d)" "status (heap d ! i) \<noteq> STATUS_SKIPPED" "attached d"
  shows "i \<in> set (inflight (doit now i d))"
    and "attempts i (doit now i d) = Suc (attempts i d)"
    and "status (heap (doit now i d) ! i) = STATUS_PROCESSING"
    and "retryCount (heap (doit now i d) ! i) = retryCount (heap d ! i)"
    and "qretry (heap (doit now i d) ! i) = qretry (heap d ! i)"
    and "has_onretry (heap (doit now i d) ! i) = has_onretry (heap d ! i)"
    and "attached (doit now i d)"
    and "retry (doit now i d) = retry d"
    and "length (heap (doit now i d)) = length (heap d)"
  using assms
  by (simp_all add: doit_def Let_def emit_def queue_next_def attempts_def getNext_def attached_def
      split: list.splits option.splits)

lemma error_item_fields [simp]:
  "status (fst (error_item e q)) = STATUS_ERROR"
  "retryCount (fst (error_item e q)) = retryCount q"
  "qtype (fst (error_item e q)) = qtype q"
  by (simp_all add: error_item_def setStatus_def setResult_def Let_def split: prod.splits)

lemma setStatus_status [simp]: "status (fst (setStatus s q)) = s"
  by (simp add: setStatus_def Let_def)

lemma done_item_status [simp]: "status (fst (done_item r q)) = STATUS_DONE"
  by (simp add: done_item_def setStatus_def setResult_def Let_def split: prod.splits)

lemma item_qtype [simp]:
  "qtype (fst (setStatus s q)) = qtype q"
  "qtype (fst (setResult r q)) = qtype q"
  "qtype (fst (done_item r q)) = qtype q"
  by (simp_all add: setStatus_def setResult_def done_item_def Let_def split: prod.splits)

lemma setLastQueue_simps [simp]:
  "heap (setLastQueue i d) = heap d" "pending (setLastQueue i d) = pending d"
  "consumer (setLastQueue i d) = consumer d" "retry (setLastQueue i d) = retry d"
  "inflight (setLastQueue i d) = inflight d" "retrying (setLastQueue i d) = retrying d"
  "timingout (setLastQueue i d) = timingout d" "trace (setLastQueue i d) = trace d"
  "timeout (setLastQueue i d) = timeout d" "polling (setLastQueue i d) = polling d"
  by (simp_all add: setLastQueue_def)

lemma history_simps [simp]:
  "queues (act a d) = queues d" "queues (on_item i m d) = queues d"
  "queues (setLastQueue i d) = queues d"
  by (simp_all add: act_def on_item_def setLastQueue_def split: prod.splits)

lemma map_update_same: "f y = f (xs ! i) \<Longrightarrow> map f (xs[i := y]) = map f xs"
proof (cases "i < length xs")
  case True
  assume "f y = f (xs ! i)"
  then have "map f (xs[i := y]) = (map f xs)[i := map f xs ! i]"
    using True by (simp add: map_update)
  then show ?thesis by simp
next
  case False
  then have "xs[i := y] = xs" by (simp add: list_update_beyond)
  then show ?thesis by simp
qed

lemma ok_the_state: "ok r \<Longrightarrow> r = Inr (the_state r)"
  by (simp add: ok_def the_state_def split: sum.splits)

lemma run_append:
  "run dg (es1 @ es2) d = (case run dg es1 d of Inl x \<Rightarrow> Inl x | Inr d1 \<Rightarrow> run dg es2 d1)"
  by (induction es1 arbitrary: d) (auto split: sum.splits)

lemma doit_policy: "timeout (doit now i d) = timeout d \<and> retry (doit now i d) = retry d"
  by (simp add: doit_def Let_def emit_def queue_next_def getNext_def split: option.splits list.splits)

lemma fail_policy: "timeout (fail i e d) = timeout d \<and> retry (fail i e d) = retry d"
  by (simp add: fail_def Let_def emit_def queue_next_def setLastQueue_def)

lemma success_policy: "timeout (success i r d) = timeout d \<and> retry (success i r d) = retry d"
  by (simp add: success_def Let_def emit_def queue_next_def setLastQueue_def)

lemma retry_closure_policy:
  "timeout (retry_closure now i e d) = timeout d \<and> retry (retry_closure now i e d) = retry d"
  by (simp add: retry_closure_def Let_def doit_policy fail_policy)

lemma poll_policy: "poll now d = Inr d' \<Longrightarrow> timeout d' = timeout d \<and> retry d' = retry d"
  by (auto simp: poll_def Let_def queue_next_def split: list.splits option.splits if_splits)

lemma step_policy:
  assumes "step dg now e d = Inr d'"
  shows "timeout d' = timeout d \<and> retry d' = retry d"
proof (cases e)
  case (Add q)
  with assms show ?thesis by (auto simp: add_eq Let_def requeue_def queue_next_def)
next
  case (SetConsumer c)
  with assms show ?thesis
    by (auto simp: setConsumer_def Let_def dest!: poll_policy split: option.splits)
next
  case Admit
  with assms show ?thesis
    by (auto simp: admit_def doQueue_def doit_policy split: list.splits option.splits)
next
  case (Settle i oc)
  with assms show ?thesis
    by (auto simp: Let_def success_policy retry_closure_policy split: if_splits outcome.splits)
next
  case (RetrySettled i oc)
  with assms show ?thesis
    by (auto simp: Let_def doit_policy fail_policy split: if_splits outcome.splits)
next
  case (TimeoutSettled i oc)
  with assms show ?thesis by (auto simp: queue_next_def split: if_splits)
next
  case Tick
  with assms show ?thesis by (auto dest: poll_policy split: if_splits)
next
  case (Skip i)
  with assms show ?thesis by (auto split: if_splits)
qed

lemma run_policy:
  "run dg es d = Inr d' \<Longrightarrow> timeout d' = timeout d \<and> retry d' = retry d"
proof (induction es arbitrary: d)
  case Nil
  then show ?case by simp
next
  case (Cons a es)
  obtain t e where a: "a = (t, e)" by (cases a)
  from Cons.prems a obtain d1 where d1: "step dg t e d = Inr d1" "run dg es d1 = Inr d'"
    by (auto split: sum.splits)
  from step_policy [OF d1(1)] Cons.IH [OF d1(2)] show ?case by simp
qed

lemma reachable_policy:
  "run dg es (new_dequeue t0) = Inr d \<Longrightarrow> timeout d = 600000 \<and> retry d = 3"
  using run_policy [of dg es "new_dequeue t0" d] by (simp add: new_dequeue_def)

lemma hanging_reached: "run sha1_sample hanging_events (new_dequeue 0) = Inr hanging"
proof -
  have "ok (run sha1_sample hanging_events (new_dequeue 0))" by code_simp
  then show ?thesis
    unfolding hanging_def by (rule ok_the_state)
qed

lemma first_attempt_reached:
  "run sha1_sample first_attempt_events (new_dequeue 0) = Inr first_attempt"
proof -
  have "ok (run sha1_sample first_attempt_events (new_dequeue 0))" by code_simp
  then show ?thesis
    unfolding first_attempt_def by (rule ok_the_state)
qed

section \<open>Retries\<close>

lemma retry_round_step:
  assumes "flying i d" and "instanceof_SiapRetryError err" and "qretry (heap d ! i)"
    and "Suc (count_of (retryCount (heap d ! i))) \<le> retry d"
  shows "\<exists>d'. run dg (retry_round i err (has_onretry (heap d ! i)) t) d = Inr d'
     \<and> flying i d'
     \<and> attempts i d' = Suc (attempts i d)
     \<and> retryCount (heap d' ! i) = Some (Suc (count_of (retryCount (heap d ! i))))
     \<and> qretry (heap d' ! i) \<and> has_onretry (heap d' ! i) = has_onretry (heap d ! i)
     \<and> retry d' = retry d"
proof (cases "has_onretry (heap d ! i)")
  case False
  let ?d1 = "d\<lparr>inflight := remove1 i (inflight d)\<rparr>"
  let ?n = "Suc (count_of (retryCount (heap d ! i)))"
  let ?d2 = "act (Console (RetryLine (toString ((heap d ! i)\<lparr>retryCount := Some ?n\<rparr>)) ?n))
      (?d1\<lparr>heap := (heap d)[i := (heap d ! i)\<lparr>retryCount := Some ?n\<rparr>]\<rparr>)"
  have r: "retry_closure t i err ?d1 = doit t i ?d2"
    using assms False by (simp add: retry_closure_def Let_def flying_def count_of_def)
  have pre: "i < length (heap ?d2)" "status (heap ?d2 ! i) \<noteq> STATUS_SKIPPED" "attached ?d2"
    using assms(1) by (simp_all add: flying_def attached_def)
  note D = doit_retry_state [OF pre, of t]
  have "run dg (retry_round i err False t) d = Inr (doit t i ?d2)"
    using assms(1) r by (simp add: retry_round_def flying_def)
  moreover have "flying i (doit t i ?d2)"
    using D pre by (simp add: flying_def)
  moreover have "attempts i (doit t i ?d2) = Suc (attempts i d)"
    using D(2) by (simp add: attempts_def)
  moreover have "retryCount (heap (doit t i ?d2) ! i) = Some ?n"
    using D(4) pre(1) by simp
  moreover have "qretry (heap (doit t i ?d2) ! i)" "\<not> has_onretry (heap (doit t i ?d2) ! i)"
    using D(5,6) pre(1) assms(3) False by simp_all
  moreover have "retry (doit t i ?d2) = retry d" using D(8) by simp
  ultimately show ?thesis using False by auto
next
  case True
  let ?d1 = "d\<lparr>inflight := remove1 i (inflight d)\<rparr>"
  let ?n = "Suc (count_of (retryCount (heap d ! i)))"
  let ?d2 = "act (Console (RetryLine (toString ((heap d ! i)\<lparr>retryCount := Some ?n\<rparr>)) ?n))
      (?d1\<lparr>heap := (heap d)[i := (heap d ! i)\<lparr>retryCount := Some ?n\<rparr>]\<rparr>)"
  let ?d3 = "(act (OnRetry i) ?d2)\<lparr>retrying := retrying ?d2 @ [i]\<rparr>"
  let ?d4 = "?d3\<lparr>retrying := remove1 i (retrying ?d3)\<rparr>"
  have r: "retry_closure t i err ?d1 = ?d3"
    using assms True by (simp add: retry_closure_def Let_def flying_def count_of_def)
  have pre: "i < length (heap ?d4)" "status (heap ?d4 ! i) \<noteq> STATUS_SKIPPED" "attached ?d4"
    using assms(1) by (simp_all add: flying_def attached_def)
  note D = doit_retry_state [OF pre, of t]
  have "run dg (retry_round i err True t) d = Inr (doit t i ?d4)"
    using assms(1) r by (simp add: retry_round_def flying_def)
  moreover have "flying i (doit t i ?d4)"
    using D pre by (simp add: flying_def)
  moreover have "attempts i (doit t i ?d4) = Suc (attempts i d)"
    using D(2) by (simp add: attempts_def)
  moreover have "retryCount (heap (doit t i ?d4) ! i) = Some ?n"
    using D(4) pre(1) by simp
  moreover have "qretry (heap (doit t i ?d4) ! i)" "has_onretry (heap (doit t i ?d4) ! i)"
    using D(5,6) pre(1) assms(3) True by simp_all
  moreover have "retry (doit t i ?d4) = retry d" using D(8) by simp
  ultimately show ?thesis using True by auto
qed

lemma retry_rounds_run:
  assumes "flying i d" and "instanceof_SiapRetryError err" and "qretry (heap d ! i)"
    and "count_of (retryCount (heap d ! i)) + length ts \<le> retry d"
  shows "\<exists>d'. run dg (retry_rounds i err (has_onretry (heap d ! i)) ts) d = Inr d'
     \<and> flying i d'
     \<and> attempts i d' = attempts i d + length ts
     \<and> count_of (retryCount (heap d' ! i)) = count_of (retryCount (heap d ! i)) + length ts
     \<and> qretry (heap d' ! i) \<and> has_onretry (heap d' ! i) = has_onretry (heap d ! i)
     \<and> retry d' = retry d"
  using assms
proof (induction ts arbitrary: d)
  case Nil
  then show ?case by (simp add: retry_rounds_def)
next
  case (Cons t ts)
  let ?h = "has_onretry (heap d ! i)"
  have "Suc (count_of (retryCount (heap d ! i))) \<le> retry d" using Cons.prems(4) by simp
  from retry_round_step [OF Cons.prems(1,2,3) this, of dg t]
  obtain d1 where d1: "run dg (retry_round i err ?h t) d = Inr d1" "flying i d1"
    "attempts i d1 = Suc (attempts i d)"
    "retryCount (heap d1 ! i) = Some (Suc (count_of (retryCount (heap d ! i))))"
    "qretry (heap d1 ! i)" "has_onretry (heap d1 ! i) = ?h" "retry d1 = retry d"
    by blast
  have c1: "count_of (retryCount (heap d1 ! i)) = Suc (count_of (retryCount (heap d ! i)))"
    using d1(4) by (simp add: count_of_def)
  have "count_of (retryCount (heap d1 ! i)) + length ts \<le> retry d1"
    using Cons.prems(4) c1 d1(7) by simp
  from Cons.IH [OF d1(2) Cons.prems(2) d1(5) this]
  obtain d' where d': "run dg (retry_rounds i err (has_onretry (heap d1 ! i)) ts) d1 = Inr d'"
    "flying i d'" "attempts i d' = attempts i d1 + length ts"
    "count_of (retryCount (heap d' ! i)) = count_of (retryCount (heap d1 ! i)) + length ts"
    "qretry (heap d' ! i)" "has_onretry (heap d' ! i) = has_onretry (heap d1 ! i)"
    "retry d' = retry d1"
    by blast
  have "run dg (retry_rounds i err ?h (t # ts)) d = Inr d'"
    using d1(1) d'(1) d1(6) by (simp add: retry_rounds_def run_append)
  then show ?case using d' d1 c1 by auto
qed

lemma final_failure:
  assumes "flying i d"
    and "\<not> (instanceof_SiapRetryError err \<and> qretry (heap d ! i)
          \<and> Suc (count_of (retryCount (heap d ! i))) \<le> retry d)"
  shows "\<exists>d'. step dg t (Settle i (Rejected err)) d = Inr d'
     \<and> status (heap d' ! i) = STATUS_ERROR
     \<and> attempts i d' = attempts i d
     \<and> retryCount (heap d' ! i) = Some (Suc (count_of (retryCount (heap d ! i))))
     \<and> Emit ''queue-error'' i \<in> set (trace d')"
  using assms
  by (auto simp: flying_def retry_closure_def fail_def Let_def count_of_def setLastQueue_def
      emit_def queue_next_def attempts_def attached_def split: option.splits)

text \<open>
  C1 (as amended). Let item \<open>i\<close> be dispatched, with its first consumer call
  outstanding and \<open>retryCount\<close> still unset. If the item has \<open>retry = true\<close>
  and every consumer call fails with a \<open>SiapRetryError\<close> (an \<open>onretry\<close> hook,
  when present, being fulfilled each time), then each of the first \<open>retry\<close>
  failures (the ceiling, which is 3 in every state reached from a new
  dispatcher) re-runs the consumer call, and the next
  failure finalizes the item as \<open>error\<close>: the consumer has been called
  \<open>1 + retry\<close> times in all, and the final \<open>retryCount\<close> is \<open>retry + 1\<close>, the
  number of failed attempts. If the failure is not retryable, or the item has
  \<open>retry = false\<close>, the first failure finalizes the item as \<open>error\<close> with no
  further consumer call and \<open>retryCount = 1\<close>.
\<close>

theorem retry_until_ceiling:
  assumes "flying i d" and "retryCount (heap d ! i) = None"
  shows "(run dg es0 (new_dequeue t0) = Inr d \<longrightarrow> retry d = 3)
       \<and> (instanceof_SiapRetryError err \<and> qretry (heap d ! i) \<and> length ts = retry d \<longrightarrow>
           (\<exists>d1 d2. run dg (retry_rounds i err (has_onretry (heap d ! i)) ts) d = Inr d1
              \<and> i \<in> set (inflight d1)
              \<and> attempts i d1 = attempts i d + retry d
              \<and> step dg t (Settle i (Rejected err)) d1 = Inr d2
              \<and> status (heap d2 ! i) = STATUS_ERROR
              \<and> attempts i d2 = attempts i d + retry d
              \<and> retryCount (heap d2 ! i) = Some (retry d + 1)))
       \<and> (\<not> (instanceof_SiapRetryError err \<and> qretry (heap d ! i)) \<longrightarrow>
           (\<exists>d2. step dg t (Settle i (Rejected err)) d = Inr d2
              \<and> status (heap d2 ! i) = STATUS_ERROR
              \<and> attempts i d2 = attempts i d
              \<and> retryCount (heap d2 ! i) = Some 1))"
proof (intro conjI impI)
  assume "run dg es0 (new_dequeue t0) = Inr d"
  then show "retry d = 3" using reachable_policy by blast
next
  assume a: "instanceof_SiapRetryError err \<and> qretry (heap d ! i) \<and> length ts = retry d"
  have z: "count_of (retryCount (heap d ! i)) = 0" using assms(2) by (simp add: count_of_def)
  have "count_of (retryCount (heap d ! i)) + length ts \<le> retry d" using a z by simp
  from retry_rounds_run [OF assms(1) _ _ this, of err dg] a
  obtain d1 where d1: "run dg (retry_rounds i err (has_onretry (heap d ! i)) ts) d = Inr d1"
    "flying i d1" "attempts i d1 = attempts i d + length ts"
    "count_of (retryCount (heap d1 ! i)) = count_of (retryCount (heap d ! i)) + length ts"
    "retry d1 = retry d"
    by blast
  have "\<not> (instanceof_SiapRetryError err \<and> qretry (heap d1 ! i)
          \<and> Suc (count_of (retryCount (heap d1 ! i))) \<le> retry d1)"
    using d1(4,5) a z by simp
  from final_failure [OF d1(2) this, of dg t]
  obtain d2 where d2: "step dg t (Settle i (Rejected err)) d1 = Inr d2"
    "status (heap d2 ! i) = STATUS_ERROR" "attempts i d2 = attempts i d1"
    "retryCount (heap d2 ! i) = Some (Suc (count_of (retryCount (heap d1 ! i))))"
    by blast
  show "\<exists>d1 d2. run dg (retry_rounds i err (has_onretry (heap d ! i)) ts) d = Inr d1
              \<and> i \<in> set (inflight d1)
              \<and> attempts i d1 = attempts i d + retry d
              \<and> step dg t (Settle i (Rejected err)) d1 = Inr d2
              \<and> status (heap d2 ! i) = STATUS_ERROR
              \<and> attempts i d2 = attempts i d + retry d
              \<and> retryCount (heap d2 ! i) = Some (retry d + 1)"
    using d1 d2 a z by (auto simp: flying_def)
next
  assume "\<not> (instanceof_SiapRetryError err \<and> qretry (heap d ! i))"
  then have "\<not> (instanceof_SiapRetryError err \<and> qretry (heap d ! i)
          \<and> Suc (count_of (retryCount (heap d ! i))) \<le> retry d)"
    by blast
  from final_failure [OF assms(1) this, of dg t]
  obtain d2 where d2: "step dg t (Settle i (Rejected err)) d = Inr d2"
    "status (heap d2 ! i) = STATUS_ERROR" "attempts i d2 = attempts i d"
    "retryCount (heap d2 ! i) = Some (Suc (count_of (retryCount (heap d ! i))))"
    by blast
  have "retryCount (heap d2 ! i) = Some 1"
    using d2(4) assms(2) by (simp add: count_of_def)
  with d2(1,2,3)
  show "\<exists>d2. step dg t (Settle i (Rejected err)) d = Inr d2
              \<and> status (heap d2 ! i) = STATUS_ERROR
              \<and> attempts i d2 = attempts i d
              \<and> retryCount (heap d2 ! i) = Some 1"
    by blast
qed

lemma first_attempt_flying: "flying 0 first_attempt"
  by code_simp

lemma first_attempt_count: "retryCount (heap first_attempt ! 0) = None"
  by code_simp

lemma first_attempt_facts:
  "instanceof_SiapRetryError retry_error \<and> qretry (heap first_attempt ! 0)
   \<and> length [2, 3, 4 :: nat] = retry first_attempt
   \<and> attempts 0 first_attempt = 1 \<and> retry first_attempt = 3
   \<and> has_onretry (heap first_attempt ! 0) = False"
  by code_simp

text \<open>
  With the default ceiling 3: one attempt is outstanding, three retryable failures
  lead to three more attempts, and the fourth failure ends in \<open>error\<close> after four
  attempts with \<open>retryCount = 4\<close>.
\<close>

theorem retry_until_ceiling_witness:
  "flying 0 first_attempt \<and> retryCount (heap first_attempt ! 0) = None
   \<and> run sha1_sample first_attempt_events (new_dequeue 0) = Inr first_attempt
   \<and> retry first_attempt = 3
   \<and> (\<exists>d1 d2. run sha1_sample (retry_rounds 0 retry_error False [2, 3, 4]) first_attempt = Inr d1
         \<and> step sha1_sample 5 (Settle 0 (Rejected retry_error)) d1 = Inr d2
         \<and> status (heap d2 ! 0) = STATUS_ERROR
         \<and> attempts 0 d2 = 4
         \<and> retryCount (heap d2 ! 0) = Some 4)"
  using retry_until_ceiling [OF first_attempt_flying first_attempt_count,
      of sha1_sample first_attempt_events 0 retry_error "[2, 3, 4]" 5]
    first_attempt_flying first_attempt_count first_attempt_facts first_attempt_reached
  by auto

text \<open>
  The claim as stated fails: after the four failures the item is in status
  \<open>error\<close>, the consumer was called four times, three retries were performed,
  and \<open>retryCount\<close> is 4, not 3.
\<close>

theorem retry_count_counterexample:
  "(case run sha1_sample
        (retry_rounds 0 retry_error False [2, 3, 4] @ [(5, Settle 0 (Rejected retry_error))])
        first_attempt of
      Inr d \<Rightarrow> status (heap d ! 0) = STATUS_ERROR \<and> attempts 0 d = 4 \<and> retries d = 3
        \<and> retryCount (heap d ! 0) = Some 4 \<and> retryCount (heap d ! 0) \<noteq> Some (retries d)
    | Inl _ \<Rightarrow> False)"
  by code_simp

section \<open>Timeouts\<close>

lemma effective_timeout_num:
  assumes "timeout_field q = Undefined \<and> n = timeout d \<or> timeout_field q = Num n"
  shows "effective_timeout d q = Num n"
  using assms by (auto simp: effective_timeout_def timeout_field_def split: option.splits)

lemma processing_bound: "processing d = i # rest \<Longrightarrow> i < length (heap d)"
proof -
  assume "processing d = i # rest"
  then have "i \<in> set (processing d)" by simp
  then show ?thesis by (simp add: processing_def)
qed

text \<open>
  C3. On a poll tick at clock reading \<open>now\<close>, let \<open>i\<close> be the first item in
  status \<open>processing\<close>, started at \<open>t\<close>, and let \<open>n\<close> be its effective timeout:
  \<open>data.timeout\<close> when defined, otherwise the dispatcher's timeout, which is
  600000 in every state reached from a new dispatcher. If \<open>n > 0\<close> and \<open>now - t > n\<close>, the tick sets the status
  of the item to \<open>timeout\<close>; without an \<open>ontimeout\<close> hook the last thing the tick
  does is to call \<open>next()\<close>; with the hook, the tick calls the hook, and when the
  hook's promise settles, either way, \<open>next()\<close> is called and the item is still
  timed out.
\<close>

theorem poll_timeout:
  assumes "processing d = i # rest"
    and "qtime (heap d ! i) = Some t"
    and "timeout_field (heap d ! i) = Undefined \<and> n = timeout d
         \<or> timeout_field (heap d ! i) = Num n"
    and "0 < n" and "n < int now - int t"
  shows "(run dg es (new_dequeue t0) = Inr d \<longrightarrow> timeout d = 600000)
       \<and> (\<exists>d'. poll now d = Inr d'
       \<and> (polling d \<longrightarrow> step dg now Tick d = Inr d')
       \<and> status (heap d' ! i) = STATUS_TIMED_OUT
       \<and> (\<not> has_ontimeout (heap d ! i) \<longrightarrow> last (trace d') = Next)
       \<and> (has_ontimeout (heap d ! i) \<longrightarrow> last (trace d') = OnTimeout i
            \<and> (\<exists>d''. step dg now' (TimeoutSettled i oc) d' = Inr d''
                  \<and> last (trace d'') = Next
                  \<and> status (heap d'' ! i) = STATUS_TIMED_OUT)))"
proof -
  have e: "effective_timeout d (heap d ! i) = Num n"
    using assms(3) by (rule effective_timeout_num)
  have b: "i < length (heap d)" using assms(1) by (rule processing_bound)
  have g: "js_gt (Num n) (Num 0) \<and> js_gt (Num (int now - int t)) (Num n)"
    using assms(4,5) by (simp add: js_gt_def)
  show ?thesis
  proof (cases "has_ontimeout (heap d ! i)")
    case False
    have "poll now d = Inr (queue_next (on_item i (setStatus STATUS_TIMED_OUT) d))"
      using assms(1,2) e g False by (simp add: poll_def Let_def)
    then show ?thesis using False b reachable_policy [of dg es t0 d] by (simp add: queue_next_def)
  next
    case True
    let ?d1 = "on_item i (setStatus STATUS_TIMED_OUT) d"
    have "poll now d = Inr ((act (OnTimeout i) ?d1)\<lparr>timingout := timingout ?d1 @ [i]\<rparr>)"
      using assms(1,2) e g True by (simp add: poll_def Let_def)
    then show ?thesis using True b reachable_policy [of dg es t0 d] by (simp add: queue_next_def)
  qed
qed

lemma hanging_facts:
  "processing hanging = [0] \<and> qtime (heap hanging ! 0) = Some 1000
   \<and> timeout_field (heap hanging ! 0) = Num 200
   \<and> polling hanging \<and> \<not> has_ontimeout (heap hanging ! 0)"
  by code_simp

text \<open>
  The example of the specification: an item with \<open>data.timeout = 200\<close> started at
  1000 whose consumer call never settles is timed out by the tick at 1201, and
  \<open>next()\<close> is called.
\<close>

theorem poll_timeout_witness:
  "processing hanging = [0] \<and> qtime (heap hanging ! 0) = Some 1000
   \<and> timeout_field (heap hanging ! 0) = Num 200
   \<and> run sha1_sample hanging_events (new_dequeue 0) = Inr hanging \<and> timeout hanging = 600000
   \<and> (\<exists>d'. step sha1_sample 1201 Tick hanging = Inr d'
         \<and> status (heap d' ! 0) = STATUS_TIMED_OUT \<and> last (trace d') = Next)"
proof -
  have p: "processing hanging = 0 # []" and q: "qtime (heap hanging ! 0) = Some 1000"
    and e: "timeout_field (heap hanging ! 0) = Undefined \<and> 200 = timeout hanging
         \<or> timeout_field (heap hanging ! 0) = Num 200"
    and r: "polling hanging" "\<not> has_ontimeout (heap hanging ! 0)"
    using hanging_facts by simp_all
  have "(0::int) < 200" and "(200::int) < int 1201 - int 1000" by simp_all
  from poll_timeout [OF p q e this, of sha1_sample hanging_events 0 0 "Fulfilled Undefined"]
    r hanging_reached
  obtain d' where "step sha1_sample 1201 Tick hanging = Inr d'"
    "status (heap d' ! 0) = STATUS_TIMED_OUT" "last (trace d') = Next"
    and "timeout hanging = 600000"
    by blast
  then show ?thesis using hanging_facts hanging_reached by blast
qed

section \<open>The order of dispatch\<close>

lemma same_shape_refl [simp]: "same_shape d d"
  by (simp add: same_shape_def)

lemma same_shape_trans: "same_shape a b \<Longrightarrow> same_shape b c \<Longrightarrow> same_shape a c"
  by (simp add: same_shape_def)

lemma dispatched_simps [simp]:
  "dispatched (act a d) = dispatched d @ dispatch_of a"
  "dispatched (on_item i m d) = dispatched d"
  "dispatched (d\<lparr>inflight := x\<rparr>) = dispatched d"
  "dispatched (d\<lparr>retrying := x\<rparr>) = dispatched d"
  "dispatched (d\<lparr>timingout := x\<rparr>) = dispatched d"
  "dispatched (d\<lparr>heap := y\<rparr>) = dispatched d"
  "dispatched (d\<lparr>pending := z\<rparr>) = dispatched d"
  "dispatched (d\<lparr>current := w\<rparr>) = dispatched d"
  "dispatched (d\<lparr>consumer := c\<rparr>) = dispatched d"
  "dispatched (d\<lparr>polling := b\<rparr>) = dispatched d"
  "dispatched (d\<lparr>lastq := l\<rparr>) = dispatched d"
  by (simp_all add: dispatched_def act_def on_item_def split: prod.splits)

lemma shape_act [simp]: "same_shape d (act a d) = (dispatch_of a = [])"
  by (simp add: same_shape_def)

lemma dispatched_setLastQueue [simp]: "dispatched (setLastQueue i d) = dispatched d"
  by (simp add: dispatched_def)

lemma shape_success: "same_shape d (success i r d)"
  by (simp add: success_def Let_def emit_def queue_next_def same_shape_def map_update_same)

lemma shape_fail: "same_shape d (fail i e d)"
  by (simp add: fail_def Let_def emit_def queue_next_def same_shape_def map_update_same)

lemma shape_doit: "same_shape d (doit now i d)"
  by (simp add: doit_def Let_def emit_def queue_next_def same_shape_def map_update_same getNext_def
      split: option.splits list.splits)

lemma shape_retry_closure: "same_shape d (retry_closure now i e d)"
proof -
  let ?n = "(case retryCount (heap d ! i) of None \<Rightarrow> 0 | Some k \<Rightarrow> k) + 1"
  let ?d1 = "d\<lparr>heap := (heap d)[i := (heap d ! i)\<lparr>retryCount := Some ?n\<rparr>]\<rparr>"
  have 1: "same_shape d ?d1" by (simp add: same_shape_def map_update_same)
  have "same_shape ?d1 (retry_closure now i e d)"
    using shape_fail [of ?d1 i e]
      shape_doit [of "act (Console (RetryLine (toString (heap ?d1 ! i)) ?n)) ?d1" now i]
    by (auto simp: retry_closure_def Let_def same_shape_def)
  with 1 show ?thesis by (rule same_shape_trans)
qed

lemma shape_poll: "poll now d = Inr d' \<Longrightarrow> same_shape d d'"
  by (auto simp: poll_def Let_def queue_next_def same_shape_def map_update_same
      split: list.splits option.splits if_splits)

lemma add_effect:
  "\<exists>q'. qtype q' = qtype q \<and> heap (snd (add dg now q d)) = heap d @ [q']
     \<and> dispatched (snd (add dg now q d)) = dispatched d
     \<and> pending (snd (add dg now q d)) = (if qtype q = Some QUEUE_CALLBACK
           then length (heap d) # pending d else pending d @ [length (heap d)])"
  by (simp add: add_eq Let_def requeue_def queue_next_def setId_def dispatched_def act_def)

lemma admit_effect:
  "same_shape d (admit now d)
   \<or> (\<exists>h. pending d = h # pending (admit now d) \<and> dispatched (admit now d) = dispatched d @ [h]
         \<and> map qtype (heap (admit now d)) = map qtype (heap d))"
proof (cases "canProcess d \<and> pending d \<noteq> []")
  case False
  then show ?thesis by (auto simp: admit_def split: list.splits)
next
  case True
  then obtain i rest where p: "pending d = i # rest" by (cases "pending d") auto
  let ?d1 = "act (Dispatch i) (d\<lparr>pending := rest, current := Some i\<rparr>)"
  have a: "admit now d = doQueue now i ?d1" using True p by (simp add: admit_def)
  have "same_shape ?d1 (doQueue now i ?d1)"
    using shape_doit [of ?d1 now i] by (simp add: doQueue_def split: option.splits)
  then have "pending (doQueue now i ?d1) = rest \<and> dispatched (doQueue now i ?d1) = dispatched d @ [i]
      \<and> map qtype (heap (doQueue now i ?d1)) = map qtype (heap d)"
    by (simp add: same_shape_def)
  with a p show ?thesis by simp
qed

lemma step_moves: "step dg now e d = Inr d' \<Longrightarrow> moves d d'"
proof (cases e)
  case (Add q)
  assume "step dg now e d = Inr d'"
  with Add have "d' = snd (add dg now q d)" by simp
  with add_effect [of q dg now d] show ?thesis by (auto simp: moves_def)
next
  case (SetConsumer c)
  assume "step dg now e d = Inr d'"
  with SetConsumer have "setConsumer now c d = Inr d'" by simp
  then have "same_shape d d'"
    by (auto simp: setConsumer_def Let_def same_shape_def dest!: shape_poll split: option.splits)
  then show ?thesis by (simp add: moves_def)
next
  case Admit
  assume "step dg now e d = Inr d'"
  with Admit have "d' = admit now d" by simp
  with admit_effect [of d now] show ?thesis by (auto simp: moves_def)
next
  case (Settle i oc)
  assume "step dg now e d = Inr d'"
  with Settle have "same_shape d d'"
    using shape_success [of "d\<lparr>inflight := remove1 i (inflight d)\<rparr>" i]
      shape_retry_closure [of "d\<lparr>inflight := remove1 i (inflight d)\<rparr>" now i]
    by (auto simp: same_shape_def Let_def split: if_splits outcome.splits)
  then show ?thesis by (simp add: moves_def)
next
  case (RetrySettled i oc)
  assume "step dg now e d = Inr d'"
  with RetrySettled have "same_shape d d'"
    using shape_doit [of "d\<lparr>retrying := remove1 i (retrying d)\<rparr>" now i]
      shape_fail [of "d\<lparr>retrying := remove1 i (retrying d)\<rparr>" i]
    by (auto simp: same_shape_def Let_def split: if_splits outcome.splits)
  then show ?thesis by (simp add: moves_def)
next
  case (TimeoutSettled i oc)
  assume "step dg now e d = Inr d'"
  with TimeoutSettled have "same_shape d d'"
    by (auto simp: same_shape_def queue_next_def split: if_splits)
  then show ?thesis by (simp add: moves_def)
next
  case Tick
  assume "step dg now e d = Inr d'"
  with Tick have "same_shape d d'"
    by (auto dest: shape_poll split: if_splits)
  then show ?thesis by (simp add: moves_def)
next
  case (Skip i)
  assume "step dg now e d = Inr d'"
  with Skip have "same_shape d d'"
    by (auto simp: same_shape_def map_update_same split: if_splits)
  then show ?thesis by (simp add: moves_def)
qed

lemma shape_length: "map qtype (heap d') = map qtype (heap d) \<Longrightarrow> length (heap d') = length (heap d)"
  by (metis length_map)

lemma shape_callback:
  "map qtype (heap d') = map qtype (heap d) \<Longrightarrow> x < length (heap d) \<Longrightarrow>
   is_callback d' x = is_callback d x"
  unfolding is_callback_def
  by (metis length_map nth_map)

lemma moves_tidy: "moves d d' \<Longrightarrow> tidy d \<Longrightarrow> tidy d'"
  unfolding moves_def
proof (elim disjE exE conjE)
  assume "same_shape d d'" "tidy d"
  then show ?thesis using shape_length [of d' d] by (simp add: same_shape_def tidy_def)
next
  fix q
  assume "tidy d" "heap d' = heap d @ [q]"
    "pending d' = (if qtype q = Some QUEUE_CALLBACK
        then length (heap d) # pending d else pending d @ [length (heap d)])"
  then show ?thesis by (auto simp: tidy_def less_Suc_eq)
next
  fix h
  assume "tidy d" "pending d = h # pending d'" "map qtype (heap d') = map qtype (heap d)"
  then show ?thesis using shape_length [of d' d] by (auto simp: tidy_def)
qed

lemma moves_mono: "moves d d' \<Longrightarrow> \<exists>new. dispatched d' = dispatched d @ new"
  by (auto simp: moves_def same_shape_def)

lemma run_tidy: "run dg es d = Inr d' \<Longrightarrow> tidy d \<Longrightarrow> tidy d'"
proof (induction es arbitrary: d)
  case Nil
  then show ?case by simp
next
  case (Cons a es)
  obtain t e where a: "a = (t, e)" by (cases a)
  from Cons.prems(1) a obtain d1 where d1: "step dg t e d = Inr d1" "run dg es d1 = Inr d'"
    by (auto split: sum.splits)
  from d1(1) have "moves d d1" by (rule step_moves)
  then have "tidy d1" using Cons.prems(2) by (rule moves_tidy)
  with d1(2) show ?case by (rule Cons.IH)
qed

lemma run_mono: "run dg es d = Inr d' \<Longrightarrow> \<exists>new. dispatched d' = dispatched d @ new"
proof (induction es arbitrary: d)
  case Nil
  then show ?case by simp
next
  case (Cons a es)
  obtain t e where a: "a = (t, e)" by (cases a)
  from Cons.prems(1) a obtain d1 where d1: "step dg t e d = Inr d1" "run dg es d1 = Inr d'"
    by (auto split: sum.splits)
  from d1(1) have "moves d d1" by (rule step_moves)
  then obtain n1 where "dispatched d1 = dispatched d @ n1" using moves_mono by blast
  moreover from Cons.IH [OF d1(2)] obtain n2 where "dispatched d' = dispatched d1 @ n2" by blast
  ultimately show ?case by simp
qed

lemma head_first:
  assumes "run dg es d = Inr d'" and "tidy d" and "pending d = xs @ c # ys"
  shows "\<exists>new. dispatched d' = dispatched d @ new \<and> (\<forall>p\<in>set ys. p \<in> set new \<longrightarrow> precedes c p new)"
  using assms
proof (induction es arbitrary: d xs ys)
  case Nil
  then show ?case by simp
next
  case (Cons a es)
  obtain t e where a: "a = (t, e)" by (cases a)
  from Cons.prems(1) a obtain d1 where d1: "step dg t e d = Inr d1" "run dg es d1 = Inr d'"
    by (auto split: sum.splits)
  from d1(1) have m: "moves d d1" by (rule step_moves)
  then have t1: "tidy d1" using Cons.prems(2) by (rule moves_tidy)
  from m consider
      (same) "same_shape d d1"
    | (add) q where "heap d1 = heap d @ [q]" "dispatched d1 = dispatched d"
        "pending d1 = (if qtype q = Some QUEUE_CALLBACK
            then length (heap d) # pending d else pending d @ [length (heap d)])"
    | (pop) h where "pending d = h # pending d1" "dispatched d1 = dispatched d @ [h]"
    unfolding moves_def by blast
  then show ?case
  proof cases
    case same
    then have "pending d1 = xs @ c # ys" "dispatched d1 = dispatched d"
      using Cons.prems(3) by (simp_all add: same_shape_def)
    with Cons.IH [OF d1(2) t1, of xs ys] show ?thesis by simp
  next
    case add
    show ?thesis
    proof (cases "qtype q = Some QUEUE_CALLBACK")
      case True
      then have "pending d1 = (length (heap d) # xs) @ c # ys"
        using add(3) Cons.prems(3) by simp
      from Cons.IH [OF d1(2) t1 this] add(2) show ?thesis by simp
    next
      case False
      then have "pending d1 = xs @ c # (ys @ [length (heap d)])"
        using add(3) Cons.prems(3) by simp
      from Cons.IH [OF d1(2) t1 this] add(2) show ?thesis by auto
    qed
  next
    case pop
    show ?thesis
    proof (cases xs)
      case Nil
      then have hc: "h = c" "pending d1 = ys" using pop(1) Cons.prems(3) by simp_all
      from run_mono [OF d1(2)] obtain n1 where n1: "dispatched d' = dispatched d1 @ n1" by blast
      have "c \<notin> set ys" using Cons.prems(2,3) by (auto simp: tidy_def)
      then have "\<forall>p\<in>set ys. precedes c p (c # n1)" by (auto simp: precedes_def)
      then show ?thesis using n1 pop(2) hc by auto
    next
      case (Cons x xs')
      then have hx: "h = x" "pending d1 = xs' @ c # ys" using pop(1) Cons.prems(3) by simp_all
      from Cons.IH [OF d1(2) t1 hx(2)] obtain n1 where
        n1: "dispatched d' = dispatched d1 @ n1" "\<forall>p\<in>set ys. p \<in> set n1 \<longrightarrow> precedes c p n1"
        by blast
      have "h \<notin> set ys" using Cons.prems(2,3) Cons hx(1) by (auto simp: tidy_def)
      then have "\<forall>p\<in>set ys. p \<in> set (h # n1) \<longrightarrow> precedes c p (h # n1)"
        using n1(2) by (auto simp: precedes_def)
      then show ?thesis using n1(1) pop(2) by auto
    qed
  qed
qed

lemma filter_callback_cong:
  assumes "\<forall>x\<in>set xs. x < length (heap d)"
    and "\<forall>x. x < length (heap d) \<longrightarrow> is_callback d' x = is_callback d x"
  shows "filter (\<lambda>i. \<not> is_callback d' i) xs = filter (\<lambda>i. \<not> is_callback d i) xs"
  using assms by (intro filter_cong) auto

lemma moves_in_order: "moves d d' \<Longrightarrow> in_order d \<Longrightarrow> in_order d'"
  unfolding moves_def
proof (elim disjE exE conjE)
  assume a: "same_shape d d'" "in_order d"
  then have q: "map qtype (heap d') = map qtype (heap d)" by (simp add: same_shape_def)
  have "filter (\<lambda>i. \<not> is_callback d' i) (dispatched d @ pending d)
      = filter (\<lambda>i. \<not> is_callback d i) (dispatched d @ pending d)"
    using a(2) shape_callback [OF q] by (intro filter_callback_cong) (auto simp: in_order_def)
  then show ?thesis using a shape_length [OF q] by (simp add: in_order_def same_shape_def)
next
  fix q
  assume a: "in_order d" "heap d' = heap d @ [q]" "dispatched d' = dispatched d"
    "pending d' = (if qtype q = Some QUEUE_CALLBACK
        then length (heap d) # pending d else pending d @ [length (heap d)])"
  have c: "\<forall>x. x < length (heap d) \<longrightarrow> is_callback d' x = is_callback d x"
    using a(2) by (simp add: is_callback_def nth_append)
  have f: "filter (\<lambda>i. \<not> is_callback d' i) (dispatched d @ pending d)
      = filter (\<lambda>i. \<not> is_callback d i) (dispatched d @ pending d)"
    using a(1) c by (intro filter_callback_cong) (auto simp: in_order_def)
  have n: "is_callback d' (length (heap d)) = (qtype q = Some QUEUE_CALLBACK)"
    using a(2) by (simp add: is_callback_def)
  have b: "\<forall>x\<in>set (dispatched d @ pending d). x < length (heap d)"
    using a(1) by (simp add: in_order_def)
  have bnd: "\<forall>x\<in>set (dispatched d' @ pending d'). x < length (heap d')"
    using a(2,3,4) b by (auto simp: less_Suc_eq)
  show ?thesis
  proof (cases "qtype q = Some QUEUE_CALLBACK")
    case True
    then have "filter (\<lambda>i. \<not> is_callback d' i) (dispatched d' @ pending d')
        = filter (\<lambda>i. \<not> is_callback d' i) (dispatched d @ pending d)"
      using a(3,4) n by simp
    then have e: "filter (\<lambda>i. \<not> is_callback d' i) (dispatched d' @ pending d')
        = filter (\<lambda>i. \<not> is_callback d i) (dispatched d @ pending d)"
      using f by simp
    have "sorted_wrt (<) (filter (\<lambda>i. \<not> is_callback d i) (dispatched d @ pending d))"
      using a(1) by (simp add: in_order_def)
    then show ?thesis unfolding in_order_def e using bnd by blast
  next
    case False
    then have "filter (\<lambda>i. \<not> is_callback d' i) (dispatched d' @ pending d')
        = filter (\<lambda>i. \<not> is_callback d' i) (dispatched d @ pending d) @ [length (heap d)]"
      using a(3,4) n by simp
    then have e: "filter (\<lambda>i. \<not> is_callback d' i) (dispatched d' @ pending d')
        = filter (\<lambda>i. \<not> is_callback d i) (dispatched d @ pending d) @ [length (heap d)]"
      using f by simp
    have "sorted_wrt (<) (filter (\<lambda>i. \<not> is_callback d i) (dispatched d @ pending d))"
      using a(1) by (simp add: in_order_def)
    moreover have "\<forall>x\<in>set (filter (\<lambda>i. \<not> is_callback d i) (dispatched d @ pending d)).
        x < length (heap d)"
      using b by auto
    ultimately have "sorted_wrt (<)
        (filter (\<lambda>i. \<not> is_callback d i) (dispatched d @ pending d) @ [length (heap d)])"
      by (simp only: sorted_wrt_append) simp
    then show ?thesis unfolding in_order_def e using bnd by blast
  qed
next
  fix h
  assume a: "in_order d" "pending d = h # pending d'" "dispatched d' = dispatched d @ [h]"
    "map qtype (heap d') = map qtype (heap d)"
  have "filter (\<lambda>i. \<not> is_callback d' i) (dispatched d @ pending d)
      = filter (\<lambda>i. \<not> is_callback d i) (dispatched d @ pending d)"
    using a(1) shape_callback [OF a(4)] by (intro filter_callback_cong) (auto simp: in_order_def)
  then show ?thesis using a shape_length [OF a(4)] by (simp add: in_order_def)
qed

lemma run_in_order: "run dg es d = Inr d' \<Longrightarrow> in_order d \<Longrightarrow> in_order d'"
proof (induction es arbitrary: d)
  case Nil
  then show ?case by simp
next
  case (Cons a es)
  obtain t e where a: "a = (t, e)" by (cases a)
  from Cons.prems(1) a obtain d1 where d1: "step dg t e d = Inr d1" "run dg es d1 = Inr d'"
    by (auto split: sum.splits)
  from d1(1) have "moves d d1" by (rule step_moves)
  then have "in_order d1" using Cons.prems(2) by (rule moves_in_order)
  with d1(2) show ?case by (rule Cons.IH)
qed

lemma new_dequeue_tidy: "tidy (new_dequeue t0) \<and> in_order (new_dequeue t0)"
  by (simp add: tidy_def in_order_def new_dequeue_def dispatched_def)

text \<open>
  C2. Let \<open>d\<close> be any state the dispatcher can reach, and let an item \<open>q\<close> be
  added. The item is put at the head of the pending list exactly when its type is
  \<open>callback\<close>, and at the tail otherwise. If it is a callback, then in every
  continuation the runner admits it before each item that was pending when it was
  added. And in every reachable state the items that are not callbacks have been
  admitted in submission order.
\<close>

theorem callback_first:
  assumes "run dg es0 (new_dequeue t0) = Inr d"
    and "run dg es (snd (add dg now q d)) = Inr d'"
  shows "pending (snd (add dg now q d)) =
           (if qtype q = Some QUEUE_CALLBACK
            then length (heap d) # pending d else pending d @ [length (heap d)])
       \<and> (qtype q = Some QUEUE_CALLBACK \<longrightarrow>
            (\<exists>new. dispatched d' = dispatched d @ new
               \<and> (\<forall>p\<in>set (pending d). p \<in> set new \<longrightarrow> precedes (length (heap d)) p new)))
       \<and> sorted_wrt (<) (filter (\<lambda>i. \<not> is_callback d' i) (dispatched d'))"
proof (intro conjI impI)
  let ?d1 = "snd (add dg now q d)"
  from add_effect [of q dg now d] obtain q' where q': "qtype q' = qtype q"
    "heap ?d1 = heap d @ [q']" "dispatched ?d1 = dispatched d"
    "pending ?d1 = (if qtype q = Some QUEUE_CALLBACK
        then length (heap d) # pending d else pending d @ [length (heap d)])"
    by blast
  show "pending ?d1 = (if qtype q = Some QUEUE_CALLBACK
        then length (heap d) # pending d else pending d @ [length (heap d)])"
    by (rule q'(4))
  have td: "tidy d" "in_order d"
    using run_tidy [OF assms(1)] run_in_order [OF assms(1)] new_dequeue_tidy by blast+
  have "moves d ?d1" using q' by (auto simp: moves_def)
  then have t1: "tidy ?d1" "in_order ?d1" using td moves_tidy moves_in_order by blast+
  have "in_order d'" using assms(2) t1(2) by (rule run_in_order)
  then show "sorted_wrt (<) (filter (\<lambda>i. \<not> is_callback d' i) (dispatched d'))"
    by (simp add: in_order_def sorted_wrt_append)
  assume "qtype q = Some QUEUE_CALLBACK"
  then have "pending ?d1 = [] @ length (heap d) # pending d" using q'(4) by simp
  from head_first [OF assms(2) t1(1) this] q'(3)
  show "\<exists>new. dispatched d' = dispatched d @ new
     \<and> (\<forall>p\<in>set (pending d). p \<in> set new \<longrightarrow> precedes (length (heap d)) p new)"
    by simp
qed

lemma one_pending_ok: "ok (run sha1_sample busy_events (new_dequeue 0))"
  by code_simp

lemma both_dispatched_ok:
  "ok (run sha1_sample ready_events (snd (add sha1_sample 1 callback_item one_pending)))"
  by code_simp

lemma both_dispatched_facts:
  "qtype callback_item = Some QUEUE_CALLBACK \<and> length (heap one_pending) = 1
   \<and> pending one_pending = [0] \<and> dispatched one_pending = []
   \<and> dispatched both_dispatched = [1, 0]"
  by code_simp

text \<open>
  In the scenario the callback, item 1, is at the head of the pending list after
  its submission and is admitted before item 0.
\<close>

theorem callback_first_witness:
  "ok (run sha1_sample busy_events (new_dequeue 0))
   \<and> ok (run sha1_sample ready_events (snd (add sha1_sample 1 callback_item one_pending)))
   \<and> pending one_pending = [0]
   \<and> pending (snd (add sha1_sample 1 callback_item one_pending)) = [1, 0]
   \<and> dispatched both_dispatched = [1, 0]
   \<and> precedes 1 0 (dispatched both_dispatched)"
proof -
  have r0: "run sha1_sample busy_events (new_dequeue 0) = Inr one_pending"
    unfolding one_pending_def using one_pending_ok by (rule ok_the_state)
  have r1: "run sha1_sample ready_events (snd (add sha1_sample 1 callback_item one_pending))
      = Inr both_dispatched"
    unfolding both_dispatched_def using both_dispatched_ok by (rule ok_the_state)
  from callback_first [OF r0 r1] both_dispatched_facts
  show ?thesis using one_pending_ok both_dispatched_ok by auto
qed

section \<open>Status transitions\<close>

subsection \<open>Runs in which every object is submitted once\<close>

lemma allowed_refl [simp]: "allowed s s"
  by (simp add: allowed_def)

lemma changes_consistent_free:
  assumes "consistent d" "free i d" "i < length (heap d)" "changes i d d'"
    and "(inflight d' = inflight d \<and> retrying d' = retrying d)
       \<or> (running (status (heap d' ! i))
           \<and> (inflight d' = inflight d @ [i] \<and> retrying d' = retrying d
              \<or> inflight d' = inflight d \<and> retrying d' = retrying d @ [i]))"
  shows "consistent d'"
proof -
  from assms(4) obtain q' where q: "pending d' = pending d" "heap d' = (heap d)[i := q']"
    by (auto simp: changes_def)
  have len: "length (heap d') = length (heap d)" using q(2) by simp
  have keep: "\<forall>j\<in>set (pending d) \<union> set (inflight d) \<union> set (retrying d).
      heap d' ! j = heap d ! j"
  proof
    fix j
    assume "j \<in> set (pending d) \<union> set (inflight d) \<union> set (retrying d)"
    then have "j \<noteq> i" using assms(2) by (auto simp: free_def)
    then show "heap d' ! j = heap d ! j" using q(2) by simp
  qed
  have p: "\<forall>j\<in>set (pending d'). j < length (heap d') \<and> waiting (status (heap d' ! j))"
    using assms(1) q(1) len keep by (simp add: consistent_def)
  have old: "\<forall>j\<in>set (inflight d) \<union> set (retrying d).
      j < length (heap d') \<and> running (status (heap d' ! j))"
    using assms(1) len keep by (simp add: consistent_def)
  have dist: "distinct (pending d @ inflight d @ retrying d)"
    using assms(1) by (simp add: consistent_def)
  from assms(5) show ?thesis
  proof (elim disjE conjE)
    assume e: "inflight d' = inflight d" "retrying d' = retrying d"
    show ?thesis unfolding consistent_def using p old dist e q(1) by simp
  next
    assume e: "running (status (heap d' ! i))" "inflight d' = inflight d @ [i]" "retrying d' = retrying d"
    have "distinct (pending d' @ inflight d' @ retrying d')"
      using dist e q(1) assms(2) by (auto simp: free_def)
    moreover have "\<forall>j\<in>set (inflight d' @ retrying d').
        j < length (heap d') \<and> running (status (heap d' ! j))"
      using old e assms(3) len by auto
    ultimately show ?thesis unfolding consistent_def using p by blast
  next
    assume e: "running (status (heap d' ! i))" "inflight d' = inflight d" "retrying d' = retrying d @ [i]"
    have "distinct (pending d' @ inflight d' @ retrying d')"
      using dist e q(1) assms(2) by (auto simp: free_def)
    moreover have "\<forall>j\<in>set (inflight d' @ retrying d').
        j < length (heap d') \<and> running (status (heap d' ! j))"
      using old e assms(3) len by auto
    ultimately show ?thesis unfolding consistent_def using p by blast
  qed
qed

lemma changes_trans: "changes i a b \<Longrightarrow> changes i b c \<Longrightarrow> changes i a c"
  by (auto simp: changes_def)

lemma changes_same: "pending d' = pending d \<Longrightarrow> heap d' = heap d \<Longrightarrow> changes i d d'"
  unfolding changes_def by (metis list_update_id)

lemma success_effect:
  assumes "i < length (heap d)"
  shows "changes i d (success i r d) \<and> status (heap (success i r d) ! i) = STATUS_DONE
     \<and> inflight (success i r d) = inflight d \<and> retrying (success i r d) = retrying d"
  using assms by (auto simp: success_def Let_def emit_def queue_next_def changes_def)

lemma fail_effect:
  assumes "i < length (heap d)"
  shows "changes i d (fail i e d) \<and> status (heap (fail i e d) ! i) = STATUS_ERROR
     \<and> inflight (fail i e d) = inflight d \<and> retrying (fail i e d) = retrying d"
  using assms by (auto simp: fail_def Let_def emit_def queue_next_def changes_def)

lemma doit_effect:
  assumes "i < length (heap d)"
  shows "changes i d (doit now i d) \<and> retrying (doit now i d) = retrying d
     \<and> (status (heap d ! i) = STATUS_SKIPPED \<and> status (heap (doit now i d) ! i) = STATUS_SKIPPED
           \<and> inflight (doit now i d) = inflight d
         \<or> status (heap d ! i) \<noteq> STATUS_SKIPPED
           \<and> status (heap (doit now i d) ! i) = STATUS_PROCESSING
           \<and> (inflight (doit now i d) = inflight d @ [i] \<or> inflight (doit now i d) = inflight d))"
proof (cases "status (heap d ! i) = STATUS_SKIPPED")
  case True
  then have "doit now i d = queue_next d" by (simp add: doit_def)
  then show ?thesis using True by (simp add: queue_next_def changes_same)
next
  case False
  then show ?thesis using assms
    by (auto simp: doit_def Let_def emit_def queue_next_def changes_def getNext_def
        split: option.splits list.splits)
qed

lemma retry_closure_effect:
  assumes "i < length (heap d)" and "status (heap d ! i) \<noteq> STATUS_SKIPPED"
  shows "changes i d (retry_closure now i e d)
     \<and> (status (heap (retry_closure now i e d) ! i) = STATUS_PROCESSING
           \<and> retrying (retry_closure now i e d) = retrying d
           \<and> (inflight (retry_closure now i e d) = inflight d @ [i]
               \<or> inflight (retry_closure now i e d) = inflight d)
         \<or> status (heap (retry_closure now i e d) ! i) = status (heap d ! i)
           \<and> inflight (retry_closure now i e d) = inflight d
           \<and> retrying (retry_closure now i e d) = retrying d @ [i]
         \<or> status (heap (retry_closure now i e d) ! i) = STATUS_ERROR
           \<and> inflight (retry_closure now i e d) = inflight d
           \<and> retrying (retry_closure now i e d) = retrying d)"
proof -
  let ?n = "(case retryCount (heap d ! i) of None \<Rightarrow> 0 | Some k \<Rightarrow> k) + 1"
  let ?d1 = "d\<lparr>heap := (heap d)[i := (heap d ! i)\<lparr>retryCount := Some ?n\<rparr>]\<rparr>"
  let ?q = "heap ?d1 ! i"
  let ?d2 = "act (Console (RetryLine (toString ?q) ?n)) ?d1"
  have c1: "changes i d ?d1" by (auto simp: changes_def)
  have l1: "i < length (heap ?d1)" "i < length (heap ?d2)" using assms(1) by simp_all
  have s1: "status (heap ?d1 ! i) = status (heap d ! i)" using assms(1) by simp
  have c2: "changes i d ?d2" by (auto simp: changes_def)
  have "retry_closure now i e d = doit now i ?d2
      \<or> retry_closure now i e d = (act (OnRetry i) ?d2)\<lparr>retrying := retrying ?d2 @ [i]\<rparr>
      \<or> retry_closure now i e d = fail i e ?d1"
    unfolding retry_closure_def Let_def by simp
  then consider (again) "retry_closure now i e d = doit now i ?d2"
    | (hook) "retry_closure now i e d = (act (OnRetry i) ?d2)\<lparr>retrying := retrying ?d2 @ [i]\<rparr>"
    | (fail) "retry_closure now i e d = fail i e ?d1"
    by blast
  then show ?thesis
  proof cases
    case again
    from doit_effect [OF l1(2), of now] assms(2) s1
    have "changes i ?d2 (doit now i ?d2)" "retrying (doit now i ?d2) = retrying d"
      "status (heap (doit now i ?d2) ! i) = STATUS_PROCESSING"
      "inflight (doit now i ?d2) = inflight d @ [i] \<or> inflight (doit now i ?d2) = inflight d"
      using assms(1) by auto
    then show ?thesis using again changes_trans [OF c2] by auto
  next
    case hook
    have "changes i d ((act (OnRetry i) ?d2)\<lparr>retrying := retrying ?d2 @ [i]\<rparr>)"
      by (auto simp: changes_def)
    then show ?thesis using hook assms(1) by auto
  next
    case fail
    from fail_effect [OF l1(1), of e] have "changes i ?d1 (fail i e ?d1)"
      "status (heap (fail i e ?d1) ! i) = STATUS_ERROR"
      "inflight (fail i e ?d1) = inflight d" "retrying (fail i e ?d1) = retrying d"
      by auto
    then show ?thesis using fail changes_trans [OF c1] by auto
  qed
qed

lemma update_steady:
  assumes "heap d' = (heap d)[i := q']" and "allowed (status (heap d ! i)) (status (heap d' ! i))"
  shows "steady d d'"
  unfolding steady_def
proof (intro allI impI)
  fix j
  assume "j < length (heap d)"
  show "allowed (status (heap d ! j)) (status (heap d' ! j))"
  proof (cases "j = i")
    case True
    with assms(2) show ?thesis by simp
  next
    case False
    then have "heap d' ! j = heap d ! j" using assms(1) by simp
    then show ?thesis by simp
  qed
qed

lemma changes_consistent_kind:
  assumes "consistent d" and "changes i d d'"
    and "inflight d' = inflight d" and "retrying d' = retrying d"
    and "waiting (status (heap d ! i)) \<longrightarrow> waiting (status (heap d' ! i))"
    and "running (status (heap d ! i)) \<longrightarrow> running (status (heap d' ! i))"
  shows "consistent d'"
proof -
  from assms(2) obtain q' where q: "pending d' = pending d" "heap d' = (heap d)[i := q']"
    by (auto simp: changes_def)
  have len: "length (heap d') = length (heap d)" using q(2) by simp
  have w: "\<And>j. waiting (status (heap d ! j)) \<Longrightarrow> waiting (status (heap d' ! j))"
  proof -
    fix j
    assume a: "waiting (status (heap d ! j))"
    show "waiting (status (heap d' ! j))"
    proof (cases "j = i")
      case True
      with a assms(5) show ?thesis by simp
    next
      case False
      then have "heap d' ! j = heap d ! j" using q(2) by simp
      with a show ?thesis by simp
    qed
  qed
  have r: "\<And>j. running (status (heap d ! j)) \<Longrightarrow> running (status (heap d' ! j))"
  proof -
    fix j
    assume a: "running (status (heap d ! j))"
    show "running (status (heap d' ! j))"
    proof (cases "j = i")
      case True
      with a assms(6) show ?thesis by simp
    next
      case False
      then have "heap d' ! j = heap d ! j" using q(2) by simp
      with a show ?thesis by simp
    qed
  qed
  show ?thesis
    using assms(1,3,4) q(1) len w r unfolding consistent_def by auto
qed

lemma inflight_removed:
  assumes "consistent d" and "i \<in> set (inflight d)"
  shows "consistent (d\<lparr>inflight := remove1 i (inflight d)\<rparr>)"
    and "free i (d\<lparr>inflight := remove1 i (inflight d)\<rparr>)"
    and "i < length (heap d)" and "running (status (heap d ! i))"
proof -
  have dist: "distinct (pending d @ inflight d @ retrying d)"
    using assms(1) by (simp add: consistent_def)
  show "consistent (d\<lparr>inflight := remove1 i (inflight d)\<rparr>)"
    using assms(1) unfolding consistent_def
    by (auto dest: notin_set_remove1 simp: set_remove1_eq)
  show "free i (d\<lparr>inflight := remove1 i (inflight d)\<rparr>)"
    using dist assms(2) by (auto simp: free_def)
  show "i < length (heap d)" "running (status (heap d ! i))"
    using assms by (auto simp: consistent_def)
qed

lemma retrying_removed:
  assumes "consistent d" and "i \<in> set (retrying d)"
  shows "consistent (d\<lparr>retrying := remove1 i (retrying d)\<rparr>)"
    and "free i (d\<lparr>retrying := remove1 i (retrying d)\<rparr>)"
    and "i < length (heap d)" and "running (status (heap d ! i))"
proof -
  have dist: "distinct (pending d @ inflight d @ retrying d)"
    using assms(1) by (simp add: consistent_def)
  show "consistent (d\<lparr>retrying := remove1 i (retrying d)\<rparr>)"
    using assms(1) unfolding consistent_def
    by (auto dest: notin_set_remove1 simp: set_remove1_eq)
  show "free i (d\<lparr>retrying := remove1 i (retrying d)\<rparr>)"
    using dist assms(2) by (auto simp: free_def)
  show "i < length (heap d)" "running (status (heap d ! i))"
    using assms by (auto simp: consistent_def)
qed

lemma running_not_skipped: "running s \<Longrightarrow> s \<noteq> STATUS_SKIPPED"
  by (auto simp: running_def)

lemma running_allowed:
  "running s \<Longrightarrow> allowed s STATUS_DONE \<and> allowed s STATUS_ERROR \<and> allowed s STATUS_PROCESSING"
  by (auto simp: running_def allowed_def)

lemma settle_consistent:
  assumes "consistent d" and "step dg now (Settle i oc) d = Inr d'"
  shows "consistent d' \<and> steady d d'"
proof (cases "i \<in> set (inflight d)")
  case False
  with assms show ?thesis by (simp add: steady_def)
next
  case True
  let ?d1 = "d\<lparr>inflight := remove1 i (inflight d)\<rparr>"
  note R = inflight_removed [OF assms(1) True]
  have l: "i < length (heap ?d1)" using R(3) by simp
  have run1: "running (status (heap ?d1 ! i))" using R(4) by simp
  show ?thesis
  proof (cases oc)
    case (Fulfilled res)
    then have d': "d' = success i res ?d1" using assms(2) True by simp
    from success_effect [OF l, of res] d'
    have e: "changes i ?d1 d'" "status (heap d' ! i) = STATUS_DONE"
      "inflight d' = inflight ?d1" "retrying d' = retrying ?d1"
      by simp_all
    have "consistent d'"
      using R(1,2) l e(1) e(3,4) by (intro changes_consistent_free [of ?d1 i d']) simp_all
    moreover have "steady d d'"
    proof -
      from e(1) obtain q' where "heap d' = (heap d)[i := q']" by (auto simp: changes_def)
      moreover have "allowed (status (heap d ! i)) (status (heap d' ! i))"
        using e(2) running_allowed [OF R(4)] by simp
      ultimately show ?thesis by (rule update_steady)
    qed
    ultimately show ?thesis by simp
  next
    case (Rejected err)
    then have d': "d' = retry_closure now i err ?d1" using assms(2) True by simp
    have ns: "status (heap ?d1 ! i) \<noteq> STATUS_SKIPPED" using run1 by (rule running_not_skipped)
    from retry_closure_effect [OF l ns, of now err] d'
    have e: "changes i ?d1 d'"
      "status (heap d' ! i) = STATUS_PROCESSING \<and> retrying d' = retrying ?d1
          \<and> (inflight d' = inflight ?d1 @ [i] \<or> inflight d' = inflight ?d1)
       \<or> status (heap d' ! i) = status (heap ?d1 ! i) \<and> inflight d' = inflight ?d1
          \<and> retrying d' = retrying ?d1 @ [i]
       \<or> status (heap d' ! i) = STATUS_ERROR \<and> inflight d' = inflight ?d1
          \<and> retrying d' = retrying ?d1"
      by simp_all
    have "consistent d'"
      using R(1,2) l e(1)
    proof (rule changes_consistent_free [of ?d1 i d'])
      show "inflight d' = inflight ?d1 \<and> retrying d' = retrying ?d1 \<or>
        running (status (heap d' ! i)) \<and>
        (inflight d' = inflight ?d1 @ [i] \<and> retrying d' = retrying ?d1 \<or>
         inflight d' = inflight ?d1 \<and> retrying d' = retrying ?d1 @ [i])"
        using e(2) run1 by (auto simp: running_def)
    qed
    moreover have "steady d d'"
    proof -
      from e(1) obtain q' where "heap d' = (heap d)[i := q']" by (auto simp: changes_def)
      moreover have "allowed (status (heap d ! i)) (status (heap d' ! i))"
        using e(2) running_allowed [OF R(4)] by auto
      ultimately show ?thesis by (rule update_steady)
    qed
    ultimately show ?thesis by simp
  qed
qed

lemma retry_settled_consistent:
  assumes "consistent d" and "step dg now (RetrySettled i oc) d = Inr d'"
  shows "consistent d' \<and> steady d d'"
proof (cases "i \<in> set (retrying d)")
  case False
  with assms show ?thesis by (simp add: steady_def)
next
  case True
  let ?d1 = "d\<lparr>retrying := remove1 i (retrying d)\<rparr>"
  note R = retrying_removed [OF assms(1) True]
  have l: "i < length (heap ?d1)" using R(3) by simp
  have run1: "running (status (heap ?d1 ! i))" using R(4) by simp
  show ?thesis
  proof (cases oc)
    case (Fulfilled res)
    then have d': "d' = doit now i ?d1" using assms(2) True by simp
    have ns: "status (heap ?d1 ! i) \<noteq> STATUS_SKIPPED" using run1 by (rule running_not_skipped)
    from doit_effect [OF l, of now] d' ns
    have e: "changes i ?d1 d'" "retrying d' = retrying ?d1"
      "status (heap d' ! i) = STATUS_PROCESSING"
      "inflight d' = inflight ?d1 @ [i] \<or> inflight d' = inflight ?d1"
      by auto
    have "consistent d'"
      using R(1,2) l e(1)
    proof (rule changes_consistent_free [of ?d1 i d'])
      show "inflight d' = inflight ?d1 \<and> retrying d' = retrying ?d1 \<or>
        running (status (heap d' ! i)) \<and>
        (inflight d' = inflight ?d1 @ [i] \<and> retrying d' = retrying ?d1 \<or>
         inflight d' = inflight ?d1 \<and> retrying d' = retrying ?d1 @ [i])"
        using e(2,3,4) by (auto simp: running_def)
    qed
    moreover have "steady d d'"
    proof -
      from e(1) obtain q' where "heap d' = (heap d)[i := q']" by (auto simp: changes_def)
      moreover have "allowed (status (heap d ! i)) (status (heap d' ! i))"
        using e(3) running_allowed [OF R(4)] by simp
      ultimately show ?thesis by (rule update_steady)
    qed
    ultimately show ?thesis by simp
  next
    case (Rejected err)
    then have d': "d' = fail i err ?d1" using assms(2) True by simp
    from fail_effect [OF l, of err] d'
    have e: "changes i ?d1 d'" "status (heap d' ! i) = STATUS_ERROR"
      "inflight d' = inflight ?d1" "retrying d' = retrying ?d1"
      by simp_all
    have "consistent d'"
      using R(1,2) l e(1) e(3,4) by (intro changes_consistent_free [of ?d1 i d']) simp_all
    moreover have "steady d d'"
    proof -
      from e(1) obtain q' where "heap d' = (heap d)[i := q']" by (auto simp: changes_def)
      moreover have "allowed (status (heap d ! i)) (status (heap d' ! i))"
        using e(2) running_allowed [OF R(4)] by simp
      ultimately show ?thesis by (rule update_steady)
    qed
    ultimately show ?thesis by simp
  qed
qed

lemma processing_head:
  assumes "processing d = i # rest"
  shows "i < length (heap d) \<and> status (heap d ! i) = STATUS_PROCESSING"
proof -
  have "i \<in> set (processing d)" using assms by simp
  then show ?thesis by (simp add: processing_def)
qed

lemma poll_consistent:
  assumes "consistent d" and "poll now d = Inr d'"
  shows "consistent d' \<and> steady d d'"
proof (cases "processing d")
  case Nil
  then have "d' = d \<or> d' = queue_next d" using assms(2) by (auto simp: poll_def split: if_splits)
  then have "heap d' = heap d" "pending d' = pending d" "inflight d' = inflight d"
    "retrying d' = retrying d"
    by (auto simp: queue_next_def)
  then show ?thesis using assms(1) by (simp add: consistent_def steady_def)
next
  case (Cons i rest)
  note h = processing_head [OF Cons]
  let ?d1 = "on_item i (setStatus STATUS_TIMED_OUT) d"
  have "d' = d \<or> d' = queue_next ?d1
      \<or> d' = (act (OnTimeout i) ?d1)\<lparr>timingout := timingout ?d1 @ [i]\<rparr>"
    using assms(2) Cons by (auto simp: poll_def Let_def split: option.splits if_splits)
  then consider (same) "d' = d"
    | (out) "heap d' = (heap d)[i := fst (setStatus STATUS_TIMED_OUT (heap d ! i))]"
        "pending d' = pending d" "inflight d' = inflight d" "retrying d' = retrying d"
    by (auto simp: queue_next_def)
  then show ?thesis
  proof cases
    case same
    then show ?thesis using assms(1) by (simp add: steady_def)
  next
    case out
    have s': "status (heap d' ! i) = STATUS_TIMED_OUT" using out(1) h by simp
    have c: "changes i d d'" using out(1,2) by (auto simp: changes_def)
    have "consistent d'"
      using assms(1) c out(3,4)
    proof (rule changes_consistent_kind)
      show "waiting (status (heap d ! i)) \<longrightarrow> waiting (status (heap d' ! i))"
        using h by (simp add: waiting_def)
      show "running (status (heap d ! i)) \<longrightarrow> running (status (heap d' ! i))"
        using s' by (simp add: running_def)
    qed
    moreover have "allowed (status (heap d ! i)) (status (heap d' ! i))"
      using h s' by (simp add: allowed_def)
    then have "steady d d'" using out(1) by (intro update_steady)
    ultimately show ?thesis by simp
  qed
qed

lemma skip_consistent:
  assumes "consistent d" and "step dg now (Skip i) d = Inr d'"
  shows "consistent d' \<and> steady d d'"
proof (cases "i < length (heap d) \<and> status (heap d ! i) = STATUS_NEW")
  case False
  with assms show ?thesis by (auto simp: steady_def)
next
  case True
  then have d': "d' = on_item i (setStatus STATUS_SKIPPED) d" using assms(2) by simp
  have s': "status (heap d' ! i) = STATUS_SKIPPED" using d' True by simp
  have c: "changes i d d'" using d' by (auto simp: changes_def)
  have "consistent d'"
    using assms(1) c
  proof (rule changes_consistent_kind)
    show "inflight d' = inflight d" "retrying d' = retrying d" using d' by simp_all
    show "waiting (status (heap d ! i)) \<longrightarrow> waiting (status (heap d' ! i))"
      using s' by (simp add: waiting_def)
    show "running (status (heap d ! i)) \<longrightarrow> running (status (heap d' ! i))"
      using True by (simp add: running_def)
  qed
  moreover have "allowed (status (heap d ! i)) (status (heap d' ! i))"
    using True s' by (simp add: allowed_def)
  then have "steady d d'" using d' by (intro update_steady [of d' d i]) simp_all
  ultimately show ?thesis by simp
qed

lemma add_consistent:
  assumes "consistent d" and "status q = STATUS_NEW"
  shows "consistent (snd (add dg now q d)) \<and> steady d (snd (add dg now q d))"
proof -
  let ?d' = "snd (add dg now q d)"
  let ?n = "length (heap d)"
  have "\<exists>q'. status q' = STATUS_NEW \<and> heap ?d' = heap d @ [q']
      \<and> (pending ?d' = ?n # pending d \<or> pending ?d' = pending d @ [?n])
      \<and> inflight ?d' = inflight d \<and> retrying ?d' = retrying d"
    using assms(2) by (simp add: add_eq Let_def requeue_def queue_next_def setId_def)
  then obtain q' where q': "status q' = STATUS_NEW" "heap ?d' = heap d @ [q']"
    "pending ?d' = ?n # pending d \<or> pending ?d' = pending d @ [?n]"
    "inflight ?d' = inflight d" "retrying ?d' = retrying d"
    by blast
  have old: "\<And>j. j < ?n \<Longrightarrow> heap ?d' ! j = heap d ! j" using q'(2) by (simp add: nth_append)
  have new: "heap ?d' ! ?n = q'" using q'(2) by simp
  have len: "length (heap ?d') = Suc ?n" using q'(2) by simp
  have fresh: "?n \<notin> set (pending d)" "?n \<notin> set (inflight d)" "?n \<notin> set (retrying d)"
    using assms(1) by (auto simp: consistent_def)
  have p: "\<forall>i\<in>set (pending ?d'). i < length (heap ?d') \<and> waiting (status (heap ?d' ! i))"
  proof
    fix i
    assume "i \<in> set (pending ?d')"
    then have "i = ?n \<or> i \<in> set (pending d)" using q'(3) by auto
    then show "i < length (heap ?d') \<and> waiting (status (heap ?d' ! i))"
    proof
      assume "i = ?n"
      then show ?thesis using new len q'(1) by (simp add: waiting_def)
    next
      assume i: "i \<in> set (pending d)"
      then have "i < ?n \<and> waiting (status (heap d ! i))" using assms(1) by (simp add: consistent_def)
      then show ?thesis using old len by simp
    qed
  qed
  have r: "\<forall>i\<in>set (inflight ?d' @ retrying ?d'). i < length (heap ?d') \<and> running (status (heap ?d' ! i))"
  proof
    fix i
    assume "i \<in> set (inflight ?d' @ retrying ?d')"
    then have "i \<in> set (inflight d @ retrying d)" using q'(4,5) by simp
    then have "i < ?n \<and> running (status (heap d ! i))" using assms(1) by (simp add: consistent_def)
    then show "i < length (heap ?d') \<and> running (status (heap ?d' ! i))" using old len by simp
  qed
  have "distinct (pending d @ inflight d @ retrying d)" using assms(1) by (simp add: consistent_def)
  then have dist: "distinct (pending ?d' @ inflight ?d' @ retrying ?d')"
    using q'(3,4,5) fresh by auto
  have "steady d ?d'" using old by (simp add: steady_def)
  then show ?thesis using p r dist unfolding consistent_def by blast
qed

lemma admit_consistent:
  assumes "consistent d"
  shows "consistent (admit now d) \<and> steady d (admit now d)"
proof (cases "canProcess d \<and> pending d \<noteq> []")
  case False
  then have "admit now d = d" by (auto simp: admit_def split: list.splits)
  then show ?thesis using assms by (simp add: steady_def)
next
  case True
  then obtain i rest where p: "pending d = i # rest" by (cases "pending d") auto
  let ?d0 = "act (Dispatch i) (d\<lparr>pending := rest, current := Some i\<rparr>)"
  have a: "admit now d = doQueue now i ?d0" using True p by (simp add: admit_def)
  have i: "i < length (heap d)" "waiting (status (heap d ! i))"
    using assms p by (auto simp: consistent_def)
  have dist: "distinct (i # rest @ inflight d @ retrying d)"
    using assms p by (simp add: consistent_def)
  have c0: "consistent ?d0" using assms p unfolding consistent_def by auto
  have f0: "free i ?d0" using dist by (auto simp: free_def)
  have l0: "i < length (heap ?d0)" using i(1) by simp
  show ?thesis
  proof (cases "consumer d")
    case None
    then have "admit now d = ?d0" using a by (simp add: doQueue_def)
    then show ?thesis using c0 by (simp add: steady_def)
  next
    case (Some c)
    then have d': "admit now d = doit now i ?d0" using a by (simp add: doQueue_def)
    from doit_effect [OF l0, of now]
    have e: "changes i ?d0 (doit now i ?d0)" "retrying (doit now i ?d0) = retrying ?d0"
      "status (heap ?d0 ! i) = STATUS_SKIPPED \<and> status (heap (doit now i ?d0) ! i) = STATUS_SKIPPED
           \<and> inflight (doit now i ?d0) = inflight ?d0
       \<or> status (heap ?d0 ! i) \<noteq> STATUS_SKIPPED
           \<and> status (heap (doit now i ?d0) ! i) = STATUS_PROCESSING
           \<and> (inflight (doit now i ?d0) = inflight ?d0 @ [i] \<or> inflight (doit now i ?d0) = inflight ?d0)"
      by blast+
    have "consistent (doit now i ?d0)"
      using c0 f0 l0 e(1)
    proof (rule changes_consistent_free)
      show "inflight (doit now i ?d0) = inflight ?d0 \<and> retrying (doit now i ?d0) = retrying ?d0 \<or>
        running (status (heap (doit now i ?d0) ! i)) \<and>
        (inflight (doit now i ?d0) = inflight ?d0 @ [i] \<and> retrying (doit now i ?d0) = retrying ?d0 \<or>
         inflight (doit now i ?d0) = inflight ?d0 \<and> retrying (doit now i ?d0) = retrying ?d0 @ [i])"
        using e(2,3) by (auto simp: running_def)
    qed
    moreover have "steady d (doit now i ?d0)"
    proof -
      from e(1) obtain q' where "heap (doit now i ?d0) = (heap d)[i := q']"
        by (auto simp: changes_def)
      moreover have "allowed (status (heap d ! i)) (status (heap (doit now i ?d0) ! i))"
        using e(3) i(2) by (auto simp: allowed_def waiting_def)
      ultimately show ?thesis by (rule update_steady)
    qed
    ultimately show ?thesis using d' by simp
  qed
qed

lemma step_consistent:
  assumes "consistent d" and "submits_new e" and "step dg now e d = Inr d'"
  shows "consistent d' \<and> steady d d'"
proof (cases e)
  case (Add q)
  then have "status q = STATUS_NEW" "d' = snd (add dg now q d)"
    using assms(2,3) by (simp_all add: submits_new_def)
  then show ?thesis using add_consistent [OF assms(1)] by simp
next
  case (SetConsumer c)
  then have sc: "setConsumer now c d = Inr d'" using assms(3) by simp
  show ?thesis
  proof (cases c)
    case None
    then have "d' = d\<lparr>consumer := None\<rparr>" using sc by (simp add: setConsumer_def)
    then show ?thesis using assms(1) by (simp add: consistent_def steady_def)
  next
    case (Some a)
    let ?d1 = "d\<lparr>consumer := c, polling := True\<rparr>"
    have "poll now ?d1 = Inr d'" using sc Some by (simp add: setConsumer_def)
    moreover have "consistent ?d1" using assms(1) by (simp add: consistent_def)
    ultimately have "consistent d' \<and> steady ?d1 d'" by (intro poll_consistent)
    then show ?thesis by (simp add: steady_def)
  qed
next
  case Admit
  then have "d' = admit now d" using assms(3) by simp
  then show ?thesis using admit_consistent [OF assms(1)] by simp
next
  case (Settle i oc)
  then show ?thesis using settle_consistent [OF assms(1)] assms(3) by blast
next
  case (RetrySettled i oc)
  then show ?thesis using retry_settled_consistent [OF assms(1)] assms(3) by blast
next
  case (TimeoutSettled i oc)
  then have "d' = d \<or> d' = queue_next (d\<lparr>timingout := remove1 i (timingout d)\<rparr>)"
    using assms(3) by (auto split: if_splits)
  then have "heap d' = heap d" "pending d' = pending d" "inflight d' = inflight d"
    "retrying d' = retrying d"
    by (auto simp: queue_next_def)
  then show ?thesis using assms(1) by (simp add: consistent_def steady_def)
next
  case Tick
  then have "d' = d \<or> poll now d = Inr d'" using assms(3) by (auto split: if_splits)
  then show ?thesis using poll_consistent [OF assms(1)] assms(1) by (auto simp: steady_def)
next
  case (Skip i)
  then show ?thesis using skip_consistent [OF assms(1)] assms(3) by blast
qed

subsection \<open>All runs\<close>

lemma possible_refl [simp]: "possible s s"
  by (simp add: possible_def)

lemma evolves_same: "heap d' = heap d \<Longrightarrow> evolves d d'"
  by (simp add: evolves_def)

lemma update_evolves:
  assumes "heap d' = (heap d)[i := q']" and "possible (status (heap d ! i)) (status (heap d' ! i))"
  shows "evolves d d'"
  unfolding evolves_def
proof (intro allI impI)
  fix j
  assume "j < length (heap d)"
  show "possible (status (heap d ! j)) (status (heap d' ! j))"
  proof (cases "j = i")
    case True
    with assms(2) show ?thesis by simp
  next
    case False
    then have "heap d' ! j = heap d ! j" using assms(1) by simp
    then show ?thesis by simp
  qed
qed

lemma sound_update:
  assumes "sound d" and "changes i d d'"
    and "set (inflight d' @ retrying d') \<subseteq> insert i (set (inflight d @ retrying d))"
    and "i \<in> set (inflight d' @ retrying d') \<longrightarrow> i < length (heap d) \<and> started (status (heap d' ! i))"
  shows "sound d'"
proof -
  from assms(2) obtain q' where q: "pending d' = pending d" "heap d' = (heap d)[i := q']"
    by (auto simp: changes_def)
  have len: "length (heap d') = length (heap d)" using q(2) by simp
  have p: "\<forall>a\<in>set (pending d'). a < length (heap d')"
    using assms(1) q(1) len by (simp add: sound_def)
  have r: "\<forall>a\<in>set (inflight d' @ retrying d'). a < length (heap d') \<and> started (status (heap d' ! a))"
  proof
    fix a
    assume a: "a \<in> set (inflight d' @ retrying d')"
    show "a < length (heap d') \<and> started (status (heap d' ! a))"
    proof (cases "a = i")
      case True
      with a assms(4) len show ?thesis by simp
    next
      case False
      then have "a \<in> set (inflight d @ retrying d)" using a assms(3) by auto
      then have "a < length (heap d) \<and> started (status (heap d ! a))"
        using assms(1) by (simp add: sound_def)
      moreover have "heap d' ! a = heap d ! a" using False q(2) by simp
      ultimately show ?thesis using len by simp
    qed
  qed
  show ?thesis unfolding sound_def using p r by blast
qed

lemma sound_less:
  assumes "sound d" and "heap d' = heap d" and "set (pending d') \<subseteq> set (pending d)"
    and "set (inflight d' @ retrying d') \<subseteq> set (inflight d @ retrying d)"
  shows "sound d'"
  using assms unfolding sound_def by (simp add: subset_iff) blast

lemma started_possible:
  "started s \<Longrightarrow> possible s STATUS_DONE \<and> possible s STATUS_ERROR \<and> possible s STATUS_PROCESSING"
  by (simp add: possible_def)

lemma started_not_skipped: "started s \<Longrightarrow> s \<noteq> STATUS_SKIPPED"
  by (auto simp: started_def)


lemma success_until_effect:
  assumes "i < length (heap d)"
  shows "changes i d (success_until pt i r d) \<and> status (heap (success_until pt i r d) ! i) = STATUS_DONE
     \<and> inflight (success_until pt i r d) = inflight d \<and> retrying (success_until pt i r d) = retrying d"
  using assms
  by (auto simp: success_until_def Let_def emit_def changes_def split: throw_point.splits)

lemma settle_sound:
  assumes "sound d" and "step dg now (Settle i oc) d = Inr d'"
  shows "sound d' \<and> evolves d d'"
proof (cases "i \<in> set (inflight d)")
  case False
  with assms show ?thesis by (simp add: evolves_def)
next
  case True
  let ?d1 = "d\<lparr>inflight := remove1 i (inflight d)\<rparr>"
  have i: "i < length (heap d)" "started (status (heap d ! i))"
    using assms(1) True by (auto simp: sound_def)
  have s1: "sound ?d1"
    using assms(1) by (rule sound_less) (use set_remove1_subset in \<open>fastforce+\<close>)
  have l: "i < length (heap ?d1)" using i(1) by simp
  show ?thesis
  proof (cases oc)
    case (Fulfilled res)
    then have d': "d' = success i res ?d1" using assms(2) True by simp
    from success_effect [OF l, of res] d'
    have e: "changes i ?d1 d'" "status (heap d' ! i) = STATUS_DONE"
      "inflight d' = inflight ?d1" "retrying d' = retrying ?d1"
      by simp_all
    have "sound d'"
      using s1 e(1)
    proof (rule sound_update)
      show "set (inflight d' @ retrying d') \<subseteq> insert i (set (inflight ?d1 @ retrying ?d1))"
        using e(3,4) by auto
      show "i \<in> set (inflight d' @ retrying d') \<longrightarrow> i < length (heap ?d1) \<and> started (status (heap d' ! i))"
        using e(2) i(1) by (simp add: started_def)
    qed
    moreover have "evolves d d'"
    proof -
      from e(1) obtain q' where "heap d' = (heap d)[i := q']" by (auto simp: changes_def)
      moreover have "possible (status (heap d ! i)) (status (heap d' ! i))"
        using e(2) started_possible [OF i(2)] by simp
      ultimately show ?thesis by (rule update_evolves)
    qed
    ultimately show ?thesis by simp
  next
    case (Rejected err)
    then have d': "d' = retry_closure now i err ?d1" using assms(2) True by simp
    have ns: "status (heap ?d1 ! i) \<noteq> STATUS_SKIPPED" using i(2) by (simp add: started_not_skipped)
    from retry_closure_effect [OF l ns, of now err] d'
    have e: "changes i ?d1 d'"
      "status (heap d' ! i) = STATUS_PROCESSING \<and> retrying d' = retrying ?d1
          \<and> (inflight d' = inflight ?d1 @ [i] \<or> inflight d' = inflight ?d1)
       \<or> status (heap d' ! i) = status (heap ?d1 ! i) \<and> inflight d' = inflight ?d1
          \<and> retrying d' = retrying ?d1 @ [i]
       \<or> status (heap d' ! i) = STATUS_ERROR \<and> inflight d' = inflight ?d1
          \<and> retrying d' = retrying ?d1"
      by simp_all
    have "sound d'"
      using s1 e(1)
    proof (rule sound_update)
      show "set (inflight d' @ retrying d') \<subseteq> insert i (set (inflight ?d1 @ retrying ?d1))"
        using e(2) by auto
      show "i \<in> set (inflight d' @ retrying d') \<longrightarrow> i < length (heap ?d1) \<and> started (status (heap d' ! i))"
        using e(2) i by (auto simp: started_def)
    qed
    moreover have "evolves d d'"
    proof -
      from e(1) obtain q' where "heap d' = (heap d)[i := q']" by (auto simp: changes_def)
      moreover have "possible (status (heap d ! i)) (status (heap d' ! i))"
        using e(2) started_possible [OF i(2)] by auto
      ultimately show ?thesis by (rule update_evolves)
    qed
    ultimately show ?thesis by simp
  qed
qed

lemma settle_throws_sound:
  assumes "sound d" and "occur dg now (SettleThrows i res pt err) d = Inr d'"
  shows "sound d' \<and> evolves d d'"
proof (cases "i \<in> set (inflight d)
    \<and> (case pt of ResolveHook \<Rightarrow> has_resolve (heap d ! i) | DoneListener \<Rightarrow> True)")
  case False
  with assms show ?thesis by (auto simp: evolves_def)
next
  case True
  let ?d1 = "d\<lparr>inflight := remove1 i (inflight d)\<rparr>"
  let ?d2 = "success_until pt i res ?d1"
  have i: "i < length (heap d)" "started (status (heap d ! i))"
    using assms(1) True by (auto simp: sound_def)
  have s1: "sound ?d1"
    using assms(1) by (rule sound_less) (use set_remove1_subset in \<open>fastforce+\<close>)
  have l: "i < length (heap ?d1)" using i(1) by simp
  from success_until_effect [OF l, of pt res]
  have u: "changes i ?d1 ?d2" "status (heap ?d2 ! i) = STATUS_DONE"
    "inflight ?d2 = inflight ?d1" "retrying ?d2 = retrying ?d1"
    by simp_all
  have l2: "i < length (heap ?d2)" using u(1) l by (auto simp: changes_def)
  have d': "d' = retry_closure now i err ?d2" using assms(2) True by simp
  have ns: "status (heap ?d2 ! i) \<noteq> STATUS_SKIPPED" using u(2) by simp
  from retry_closure_effect [OF l2 ns, of now err] d'
  have e: "changes i ?d2 d'"
    "status (heap d' ! i) = STATUS_PROCESSING \<and> retrying d' = retrying ?d2
        \<and> (inflight d' = inflight ?d2 @ [i] \<or> inflight d' = inflight ?d2)
     \<or> status (heap d' ! i) = status (heap ?d2 ! i) \<and> inflight d' = inflight ?d2
        \<and> retrying d' = retrying ?d2 @ [i]
     \<or> status (heap d' ! i) = STATUS_ERROR \<and> inflight d' = inflight ?d2
        \<and> retrying d' = retrying ?d2"
    by simp_all
  have c: "changes i ?d1 d'" using u(1) e(1) by (rule changes_trans)
  have st: "status (heap d' ! i) = STATUS_PROCESSING \<or> status (heap d' ! i) = STATUS_DONE
      \<or> status (heap d' ! i) = STATUS_ERROR"
    using e(2) u(2) by auto
  have "sound d'"
    using s1 c
  proof (rule sound_update)
    show "set (inflight d' @ retrying d') \<subseteq> insert i (set (inflight ?d1 @ retrying ?d1))"
      using e(2) u(3,4) by auto
    show "i \<in> set (inflight d' @ retrying d') \<longrightarrow> i < length (heap ?d1) \<and> started (status (heap d' ! i))"
      using st i(1) by (auto simp: started_def)
  qed
  moreover have "evolves d d'"
  proof -
    from c obtain q' where "heap d' = (heap d)[i := q']" by (auto simp: changes_def)
    moreover have "possible (status (heap d ! i)) (status (heap d' ! i))"
      using st started_possible [OF i(2)] by auto
    ultimately show ?thesis by (rule update_evolves)
  qed
  ultimately show ?thesis by simp
qed

lemma retry_settled_sound:
  assumes "sound d" and "step dg now (RetrySettled i oc) d = Inr d'"
  shows "sound d' \<and> evolves d d'"
proof (cases "i \<in> set (retrying d)")
  case False
  with assms show ?thesis by (simp add: evolves_def)
next
  case True
  let ?d1 = "d\<lparr>retrying := remove1 i (retrying d)\<rparr>"
  have i: "i < length (heap d)" "started (status (heap d ! i))"
    using assms(1) True by (auto simp: sound_def)
  have s1: "sound ?d1"
    using assms(1) by (rule sound_less) (use set_remove1_subset in \<open>fastforce+\<close>)
  have l: "i < length (heap ?d1)" using i(1) by simp
  show ?thesis
  proof (cases oc)
    case (Fulfilled res)
    then have d': "d' = doit now i ?d1" using assms(2) True by simp
    have ns: "status (heap ?d1 ! i) \<noteq> STATUS_SKIPPED" using i(2) by (simp add: started_not_skipped)
    from doit_effect [OF l, of now] d' ns
    have e: "changes i ?d1 d'" "retrying d' = retrying ?d1"
      "status (heap d' ! i) = STATUS_PROCESSING"
      "inflight d' = inflight ?d1 @ [i] \<or> inflight d' = inflight ?d1"
      by auto
    have "sound d'"
      using s1 e(1)
    proof (rule sound_update)
      show "set (inflight d' @ retrying d') \<subseteq> insert i (set (inflight ?d1 @ retrying ?d1))"
        using e(2,4) by auto
      show "i \<in> set (inflight d' @ retrying d') \<longrightarrow> i < length (heap ?d1) \<and> started (status (heap d' ! i))"
        using e(3) i(1) by (simp add: started_def)
    qed
    moreover have "evolves d d'"
    proof -
      from e(1) obtain q' where "heap d' = (heap d)[i := q']" by (auto simp: changes_def)
      moreover have "possible (status (heap d ! i)) (status (heap d' ! i))"
        using e(3) started_possible [OF i(2)] by simp
      ultimately show ?thesis by (rule update_evolves)
    qed
    ultimately show ?thesis by simp
  next
    case (Rejected err)
    then have d': "d' = fail i err ?d1" using assms(2) True by simp
    from fail_effect [OF l, of err] d'
    have e: "changes i ?d1 d'" "status (heap d' ! i) = STATUS_ERROR"
      "inflight d' = inflight ?d1" "retrying d' = retrying ?d1"
      by simp_all
    have "sound d'"
      using s1 e(1)
    proof (rule sound_update)
      show "set (inflight d' @ retrying d') \<subseteq> insert i (set (inflight ?d1 @ retrying ?d1))"
        using e(3,4) by auto
      show "i \<in> set (inflight d' @ retrying d') \<longrightarrow> i < length (heap ?d1) \<and> started (status (heap d' ! i))"
        using e(2) i(1) by (simp add: started_def)
    qed
    moreover have "evolves d d'"
    proof -
      from e(1) obtain q' where "heap d' = (heap d)[i := q']" by (auto simp: changes_def)
      moreover have "possible (status (heap d ! i)) (status (heap d' ! i))"
        using e(2) started_possible [OF i(2)] by simp
      ultimately show ?thesis by (rule update_evolves)
    qed
    ultimately show ?thesis by simp
  qed
qed

lemma poll_sound:
  assumes "sound d" and "poll now d = Inr d'"
  shows "sound d' \<and> evolves d d'"
proof (cases "processing d")
  case Nil
  then have "d' = d \<or> d' = queue_next d" using assms(2) by (auto simp: poll_def split: if_splits)
  then have "heap d' = heap d" "pending d' = pending d" "inflight d' = inflight d"
    "retrying d' = retrying d"
    by (auto simp: queue_next_def)
  then show ?thesis using assms(1) by (simp add: sound_def evolves_def)
next
  case (Cons i rest)
  note h = processing_head [OF Cons]
  let ?d1 = "on_item i (setStatus STATUS_TIMED_OUT) d"
  have "d' = d \<or> d' = queue_next ?d1
      \<or> d' = (act (OnTimeout i) ?d1)\<lparr>timingout := timingout ?d1 @ [i]\<rparr>"
    using assms(2) Cons by (auto simp: poll_def Let_def split: option.splits if_splits)
  then consider (same) "d' = d"
    | (out) "heap d' = (heap d)[i := fst (setStatus STATUS_TIMED_OUT (heap d ! i))]"
        "pending d' = pending d" "inflight d' = inflight d" "retrying d' = retrying d"
    by (auto simp: queue_next_def)
  then show ?thesis
  proof cases
    case same
    then show ?thesis using assms(1) by (simp add: evolves_def)
  next
    case out
    have s': "status (heap d' ! i) = STATUS_TIMED_OUT" using out(1) h by simp
    have c: "changes i d d'" using out(1,2) by (auto simp: changes_def)
    have "sound d'"
      using assms(1) c
    proof (rule sound_update)
      show "set (inflight d' @ retrying d') \<subseteq> insert i (set (inflight d @ retrying d))"
        using out(3,4) by auto
      show "i \<in> set (inflight d' @ retrying d') \<longrightarrow> i < length (heap d) \<and> started (status (heap d' ! i))"
        using s' h by (simp add: started_def)
    qed
    moreover have "possible (status (heap d ! i)) (status (heap d' ! i))"
      using h s' by (simp add: possible_def)
    then have "evolves d d'" using out(1) by (intro update_evolves)
    ultimately show ?thesis by simp
  qed
qed

lemma skip_sound:
  assumes "sound d" and "step dg now (Skip i) d = Inr d'"
  shows "sound d' \<and> evolves d d'"
proof (cases "i < length (heap d) \<and> status (heap d ! i) = STATUS_NEW")
  case False
  with assms show ?thesis by (auto simp: evolves_def)
next
  case True
  then have d': "d' = on_item i (setStatus STATUS_SKIPPED) d" using assms(2) by simp
  have s': "status (heap d' ! i) = STATUS_SKIPPED" using d' True by simp
  have c: "changes i d d'" using d' by (auto simp: changes_def)
  have out: "i \<notin> set (inflight d @ retrying d)"
  proof
    assume "i \<in> set (inflight d @ retrying d)"
    then have "started (status (heap d ! i))" using assms(1) by (simp add: sound_def)
    then show False using True by (simp add: started_def)
  qed
  have "sound d'"
    using assms(1) c
  proof (rule sound_update)
    show "set (inflight d' @ retrying d') \<subseteq> insert i (set (inflight d @ retrying d))"
      using d' by auto
    show "i \<in> set (inflight d' @ retrying d') \<longrightarrow> i < length (heap d) \<and> started (status (heap d' ! i))"
      using out d' by simp
  qed
  moreover have "possible (status (heap d ! i)) (status (heap d' ! i))"
    using True s' by (simp add: possible_def)
  then have "evolves d d'" using d' by (intro update_evolves [of d' d i]) simp_all
  ultimately show ?thesis by simp
qed

lemma add_sound:
  assumes "sound d"
  shows "sound (snd (add dg now q d)) \<and> evolves d (snd (add dg now q d))"
proof -
  let ?d' = "snd (add dg now q d)"
  let ?n = "length (heap d)"
  have "\<exists>q'. heap ?d' = heap d @ [q']
      \<and> (pending ?d' = ?n # pending d \<or> pending ?d' = pending d @ [?n])
      \<and> inflight ?d' = inflight d \<and> retrying ?d' = retrying d"
    by (simp add: add_eq Let_def requeue_def queue_next_def setId_def)
  then obtain q' where q': "heap ?d' = heap d @ [q']"
    "pending ?d' = ?n # pending d \<or> pending ?d' = pending d @ [?n]"
    "inflight ?d' = inflight d" "retrying ?d' = retrying d"
    by blast
  have old: "\<And>j. j < ?n \<Longrightarrow> heap ?d' ! j = heap d ! j" using q'(1) by (simp add: nth_append)
  have len: "length (heap ?d') = Suc ?n" using q'(1) by simp
  have p: "\<forall>a\<in>set (pending ?d'). a < length (heap ?d')"
  proof
    fix a
    assume "a \<in> set (pending ?d')"
    then have "a = ?n \<or> a \<in> set (pending d)" using q'(2) by auto
    then show "a < length (heap ?d')" using assms len by (auto simp: sound_def)
  qed
  have r: "\<forall>a\<in>set (inflight ?d' @ retrying ?d'). a < length (heap ?d') \<and> started (status (heap ?d' ! a))"
  proof
    fix a
    assume "a \<in> set (inflight ?d' @ retrying ?d')"
    then have "a \<in> set (inflight d @ retrying d)" using q'(3,4) by simp
    then have "a < ?n \<and> started (status (heap d ! a))" using assms by (simp add: sound_def)
    then show "a < length (heap ?d') \<and> started (status (heap ?d' ! a))" using old len by simp
  qed
  have "evolves d ?d'" using old by (simp add: evolves_def)
  then show ?thesis using p r unfolding sound_def by blast
qed

lemma resubmit_sound:
  assumes "sound d" and "a < length (heap d)"
  shows "sound (snd (add_ref dg now a d)) \<and> evolves d (snd (add_ref dg now a d))"
proof -
  let ?d' = "snd (add_ref dg now a d)"
  have "\<exists>q'. status q' = status (heap d ! a) \<and> heap ?d' = (heap d)[a := q']
      \<and> (pending ?d' = a # pending d \<or> pending ?d' = pending d @ [a])
      \<and> inflight ?d' = inflight d \<and> retrying ?d' = retrying d"
  proof (cases "truthy_str (qid (heap d ! a))")
    case True
    then have "heap ?d' = heap d"
      "pending ?d' = a # pending d \<or> pending ?d' = pending d @ [a]"
      "inflight ?d' = inflight d" "retrying ?d' = retrying d"
      by (simp_all add: add_ref_def Let_def requeue_def queue_next_def)
    moreover have "heap d = (heap d)[a := heap d ! a]" by simp
    ultimately show ?thesis by metis
  next
    case False
    let ?q = "setId (genId dg now) (heap d ! a)"
    have "status ?q = status (heap d ! a)" by (simp add: setId_def)
    moreover have "heap ?d' = (heap d)[a := ?q]"
      "pending ?d' = a # pending d \<or> pending ?d' = pending d @ [a]"
      "inflight ?d' = inflight d" "retrying ?d' = retrying d"
      using False by (simp_all add: add_ref_def Let_def requeue_def queue_next_def)
    ultimately show ?thesis by blast
  qed
  then obtain q' where q': "status q' = status (heap d ! a)" "heap ?d' = (heap d)[a := q']"
    "pending ?d' = a # pending d \<or> pending ?d' = pending d @ [a]"
    "inflight ?d' = inflight d" "retrying ?d' = retrying d"
    by blast
  have len: "length (heap ?d') = length (heap d)" using q'(2) by simp
  have st: "\<And>j. j < length (heap d) \<Longrightarrow> status (heap ?d' ! j) = status (heap d ! j)"
  proof -
    fix j
    assume "j < length (heap d)"
    then show "status (heap ?d' ! j) = status (heap d ! j)"
      using q'(1,2) by (cases "j = a") simp_all
  qed
  have p: "\<forall>x\<in>set (pending ?d'). x < length (heap ?d')"
  proof
    fix x
    assume "x \<in> set (pending ?d')"
    then have "x = a \<or> x \<in> set (pending d)" using q'(3) by auto
    then show "x < length (heap ?d')" using assms len by (auto simp: sound_def)
  qed
  have r: "\<forall>x\<in>set (inflight ?d' @ retrying ?d'). x < length (heap ?d') \<and> started (status (heap ?d' ! x))"
  proof
    fix x
    assume "x \<in> set (inflight ?d' @ retrying ?d')"
    then have "x \<in> set (inflight d @ retrying d)" using q'(4,5) by simp
    then have "x < length (heap d) \<and> started (status (heap d ! x))" using assms(1) by (simp add: sound_def)
    then show "x < length (heap ?d') \<and> started (status (heap ?d' ! x))" using st len by simp
  qed
  have "evolves d ?d'" using st by (simp add: evolves_def)
  then show ?thesis using p r unfolding sound_def by blast
qed

lemma admit_sound:
  assumes "sound d"
  shows "sound (admit now d) \<and> evolves d (admit now d)"
proof (cases "canProcess d \<and> pending d \<noteq> []")
  case False
  then have "admit now d = d" by (auto simp: admit_def split: list.splits)
  then show ?thesis using assms by (simp add: evolves_def)
next
  case True
  then obtain i rest where p: "pending d = i # rest" by (cases "pending d") auto
  let ?d0 = "act (Dispatch i) (d\<lparr>pending := rest, current := Some i\<rparr>)"
  have a: "admit now d = doQueue now i ?d0" using True p by (simp add: admit_def)
  have i: "i < length (heap d)" using assms p by (auto simp: sound_def)
  have c0: "sound ?d0" using assms p unfolding sound_def by auto
  have l0: "i < length (heap ?d0)" using i by simp
  show ?thesis
  proof (cases "consumer d")
    case None
    then have "admit now d = ?d0" using a by (simp add: doQueue_def)
    then show ?thesis using c0 by (simp add: evolves_def)
  next
    case (Some c)
    then have d': "admit now d = doit now i ?d0" using a by (simp add: doQueue_def)
    from doit_effect [OF l0, of now]
    have e: "changes i ?d0 (doit now i ?d0)" "retrying (doit now i ?d0) = retrying ?d0"
      "status (heap ?d0 ! i) = STATUS_SKIPPED \<and> status (heap (doit now i ?d0) ! i) = STATUS_SKIPPED
           \<and> inflight (doit now i ?d0) = inflight ?d0
       \<or> status (heap ?d0 ! i) \<noteq> STATUS_SKIPPED
           \<and> status (heap (doit now i ?d0) ! i) = STATUS_PROCESSING
           \<and> (inflight (doit now i ?d0) = inflight ?d0 @ [i] \<or> inflight (doit now i ?d0) = inflight ?d0)"
      by blast+
    have out: "status (heap d ! i) = STATUS_SKIPPED \<Longrightarrow> i \<notin> set (inflight d @ retrying d)"
    proof
      assume k: "status (heap d ! i) = STATUS_SKIPPED" and m: "i \<in> set (inflight d @ retrying d)"
      have "\<forall>a\<in>set (inflight d @ retrying d). started (status (heap d ! a))"
        using assms by (simp add: sound_def)
      with m have "started (status (heap d ! i))" by blast
      then show False using k by (simp add: started_def)
    qed
    have "sound (doit now i ?d0)"
      using c0 e(1)
    proof (rule sound_update)
      show "set (inflight (doit now i ?d0) @ retrying (doit now i ?d0))
          \<subseteq> insert i (set (inflight ?d0 @ retrying ?d0))"
        using e(2,3) by auto
      show "i \<in> set (inflight (doit now i ?d0) @ retrying (doit now i ?d0))
          \<longrightarrow> i < length (heap ?d0) \<and> started (status (heap (doit now i ?d0) ! i))"
        using e(2,3) out i by (auto simp: started_def)
    qed
    moreover have "evolves d (doit now i ?d0)"
    proof -
      from e(1) obtain q' where "heap (doit now i ?d0) = (heap d)[i := q']"
        by (auto simp: changes_def)
      moreover have "possible (status (heap d ! i)) (status (heap (doit now i ?d0) ! i))"
      proof (cases "status (heap d ! i)")
        case STATUS_NEW
        then show ?thesis using e(3) by (auto simp: possible_def)
      next
        case STATUS_SKIPPED
        then show ?thesis using e(3) by (auto simp: possible_def)
      qed (use e(3) in \<open>auto simp: possible_def started_def\<close>)
      ultimately show ?thesis by (rule update_evolves)
    qed
    ultimately show ?thesis using d' by simp
  qed
qed

lemma step_sound:
  assumes "sound d" and "step dg now e d = Inr d'"
  shows "sound d' \<and> evolves d d'"
proof (cases e)
  case (Add q)
  then have "d' = snd (add dg now q d)" using assms(2) by simp
  then show ?thesis using add_sound [OF assms(1)] by simp
next
  case (SetConsumer c)
  then have sc: "setConsumer now c d = Inr d'" using assms(2) by simp
  show ?thesis
  proof (cases c)
    case None
    then have "d' = d\<lparr>consumer := None\<rparr>" using sc by (simp add: setConsumer_def)
    then show ?thesis using assms(1) by (simp add: sound_def evolves_def)
  next
    case (Some a)
    let ?d1 = "d\<lparr>consumer := c, polling := True\<rparr>"
    have "poll now ?d1 = Inr d'" using sc Some by (simp add: setConsumer_def)
    moreover have "sound ?d1" using assms(1) by (simp add: sound_def)
    ultimately have "sound d' \<and> evolves ?d1 d'" by (intro poll_sound)
    then show ?thesis by (simp add: evolves_def)
  qed
next
  case Admit
  then have "d' = admit now d" using assms(2) by simp
  then show ?thesis using admit_sound [OF assms(1)] by simp
next
  case (Settle i oc)
  then show ?thesis using settle_sound [OF assms(1)] assms(2) by blast
next
  case (RetrySettled i oc)
  then show ?thesis using retry_settled_sound [OF assms(1)] assms(2) by blast
next
  case (TimeoutSettled i oc)
  then have "d' = d \<or> d' = queue_next (d\<lparr>timingout := remove1 i (timingout d)\<rparr>)"
    using assms(2) by (auto split: if_splits)
  then have "heap d' = heap d" "pending d' = pending d" "inflight d' = inflight d"
    "retrying d' = retrying d"
    by (auto simp: queue_next_def)
  then show ?thesis using assms(1) by (simp add: sound_def evolves_def)
next
  case Tick
  then have "d' = d \<or> poll now d = Inr d'" using assms(2) by (auto split: if_splits)
  then show ?thesis using poll_sound [OF assms(1)] assms(1) by (auto simp: evolves_def)
next
  case (Skip i)
  then show ?thesis using skip_sound [OF assms(1)] assms(2) by blast
qed

lemma occur_sound:
  assumes "sound d" and "occur dg now e d = Inr d'"
  shows "sound d' \<and> evolves d d'"
proof (cases e)
  case (Regular e0)
  then show ?thesis using step_sound [OF assms(1)] assms(2) by simp
next
  case (Resubmit a)
  show ?thesis
  proof (cases "a < length (heap d)")
    case True
    then have "d' = snd (add_ref dg now a d)" using assms(2) Resubmit by simp
    then show ?thesis using resubmit_sound [OF assms(1) True] by simp
  next
    case False
    then have "d' = d" using assms(2) Resubmit by simp
    then show ?thesis using assms(1) by (simp add: evolves_def)
  qed
next
  case (SettleThrows i res pt err)
  then show ?thesis using settle_throws_sound [OF assms(1)] assms(2) by blast
qed

lemma run_any_sound:
  assumes "run_any dg es d = Inr d'" and "sound d"
  shows "sound d'"
  using assms
proof (induction es arbitrary: d)
  case Nil
  then show ?case by simp
next
  case (Cons a es)
  obtain t e where a: "a = (t, e)" by (cases a)
  from Cons.prems(1) a obtain d1 where d1: "occur dg t e d = Inr d1" "run_any dg es d1 = Inr d'"
    by (auto split: sum.splits)
  have "sound d1" using occur_sound [OF Cons.prems(2) d1(1)] by blast
  then show ?case using Cons.IH [OF d1(2)] by blast
qed

lemma run_any_consistent:
  assumes "run_any dg es d = Inr d'" and "consistent d" and "list_all regular_new (map snd es)"
  shows "consistent d'"
  using assms
proof (induction es arbitrary: d)
  case Nil
  then show ?case by simp
next
  case (Cons a es)
  obtain t e where a: "a = (t, e)" by (cases a)
  from Cons.prems(1) a obtain d1 where d1: "occur dg t e d = Inr d1" "run_any dg es d1 = Inr d'"
    by (auto split: sum.splits)
  have r: "regular_new e" "list_all regular_new (map snd es)" using Cons.prems(3) a by simp_all
  then obtain e0 where e0: "e = Regular e0" "submits_new e0"
    by (cases e) (auto simp: regular_new_def)
  then have "step dg t e0 d = Inr d1" using d1(1) by simp
  then have "consistent d1" using step_consistent [OF Cons.prems(2) e0(2)] by blast
  then show ?case using Cons.IH [OF d1(2)] r(2) by blast
qed

lemma run_any_regular: "run_any dg (regular es) d = run dg es d"
  by (induction es arbitrary: d) (auto simp: regular_def split: sum.splits)

lemma regular_new_regular:
  "list_all regular_new (map snd (regular es)) = list_all submits_new (map snd es)"
  by (induction es) (auto simp: regular_def regular_new_def)

text \<open>
  C4 (as amended). In every run from a new dispatcher, whatever is submitted and
  whichever hooks throw, one incident changes the status of an item only from
  \<open>new\<close> to \<open>processing\<close> or \<open>skipped\<close>, from \<open>processing\<close> to \<open>timeout\<close>, or
  from \<open>processing\<close>, \<open>done\<close>, \<open>error\<close> or \<open>timeout\<close> to \<open>processing\<close>, \<open>done\<close> or
  \<open>error\<close>; so \<open>new\<close> is never entered again and \<open>skipped\<close> is never left. If
  moreover every object is submitted once, in status \<open>new\<close>, and no hook or
  listener throws, the changes are only \<open>new\<close> to \<open>processing\<close> or \<open>skipped\<close>,
  \<open>processing\<close> to \<open>done\<close>, \<open>error\<close> or \<open>timeout\<close>, and \<open>timeout\<close> to
  \<open>processing\<close>, \<open>done\<close> or \<open>error\<close>, and \<open>done\<close>, \<open>error\<close> and \<open>skipped\<close> are never
  left. The status \<open>timeout\<close> is not final: the handlers of the consumer call do
  not test the status, so its settlement after a timeout still takes effect.
\<close>

theorem status_moves_forward:
  assumes "run_any dg es (new_dequeue t0) = Inr d" and "occur dg now e d = Inr d'"
    and "i < length (heap d)"
  shows "possible (status (heap d ! i)) (status (heap d' ! i))
       \<and> (status (heap d' ! i) = STATUS_NEW \<longrightarrow> status (heap d ! i) = STATUS_NEW)
       \<and> (status (heap d ! i) = STATUS_SKIPPED \<longrightarrow> status (heap d' ! i) = STATUS_SKIPPED)
       \<and> (list_all regular_new (map snd es) \<and> regular_new e \<longrightarrow>
            allowed (status (heap d ! i)) (status (heap d' ! i))
            \<and> (final (status (heap d ! i)) \<longrightarrow> status (heap d' ! i) = status (heap d ! i)))"
proof -
  have "sound (new_dequeue t0)" by (simp add: sound_def new_dequeue_def)
  with assms(1) have "sound d" by (rule run_any_sound)
  then have "evolves d d'" using occur_sound [OF _ assms(2)] by blast
  then have p: "possible (status (heap d ! i)) (status (heap d' ! i))"
    using assms(3) by (simp add: evolves_def)
  have g: "(status (heap d' ! i) = STATUS_NEW \<longrightarrow> status (heap d ! i) = STATUS_NEW)
      \<and> (status (heap d ! i) = STATUS_SKIPPED \<longrightarrow> status (heap d' ! i) = STATUS_SKIPPED)"
    using p by (auto simp: possible_def started_def)
  have r: "allowed (status (heap d ! i)) (status (heap d' ! i))
      \<and> (final (status (heap d ! i)) \<longrightarrow> status (heap d' ! i) = status (heap d ! i))"
    if h: "list_all regular_new (map snd es)" "regular_new e"
  proof -
    have "consistent (new_dequeue t0)" by (simp add: consistent_def new_dequeue_def)
    with assms(1) have c: "consistent d" using h(1) by (rule run_any_consistent)
    from h(2) obtain e0 where e0: "e = Regular e0" "submits_new e0"
      by (cases e) (auto simp: regular_new_def)
    then have "step dg now e0 d = Inr d'" using assms(2) by simp
    then have "steady d d'" using step_consistent [OF c e0(2)] by blast
    then have "allowed (status (heap d ! i)) (status (heap d' ! i))"
      using assms(3) by (simp add: steady_def)
    then show ?thesis by (auto simp: allowed_def final_def)
  qed
  show ?thesis using p g r by blast
qed

lemma hanging_tick:
  "ok (step sha1_sample 1201 Tick hanging)
   \<and> status (heap hanging ! 0) = STATUS_PROCESSING
   \<and> status (heap (the_state (step sha1_sample 1201 Tick hanging)) ! 0) = STATUS_TIMED_OUT
   \<and> list_all submits_new (map snd hanging_events) \<and> submits_new Tick
   \<and> 0 < length (heap hanging)"
  by code_simp

theorem status_moves_forward_witness:
  "run_any sha1_sample (regular hanging_events) (new_dequeue 0) = Inr hanging
   \<and> occur sha1_sample 1201 (Regular Tick) hanging
       = Inr (the_state (step sha1_sample 1201 Tick hanging))
   \<and> 0 < length (heap hanging)
   \<and> list_all regular_new (map snd (regular hanging_events)) \<and> regular_new (Regular Tick)
   \<and> status (heap hanging ! 0) = STATUS_PROCESSING
   \<and> status (heap (the_state (step sha1_sample 1201 Tick hanging)) ! 0) = STATUS_TIMED_OUT
   \<and> possible STATUS_PROCESSING STATUS_TIMED_OUT
   \<and> allowed STATUS_PROCESSING STATUS_TIMED_OUT"
proof -
  have r: "run_any sha1_sample (regular hanging_events) (new_dequeue 0) = Inr hanging"
    using hanging_reached by (simp add: run_any_regular)
  have s: "occur sha1_sample 1201 (Regular Tick) hanging
      = Inr (the_state (step sha1_sample 1201 Tick hanging))"
    using hanging_tick ok_the_state [of "step sha1_sample 1201 Tick hanging"] by simp
  have l: "list_all regular_new (map snd (regular hanging_events))" and n: "regular_new (Regular Tick)"
    and b: "0 < length (heap hanging)"
    using hanging_tick by (simp_all add: regular_new_regular regular_new_def)
  from status_moves_forward [OF r s b] hanging_tick r s l n
  show ?thesis by auto
qed

text \<open>
  The claim as stated fails: the item with \<open>data.timeout = 200\<close> is timed out by
  the tick at 1201 with no result; when its consumer call is fulfilled at 1300 the
  item becomes \<open>done\<close> and the value is recorded as its result. Nor are \<open>done\<close>
  and \<open>error\<close> final in all runs: an object submitted twice is \<open>done\<close> after its
  first consumer call and \<open>processing\<close> again after the second admission, since
  \<open>doit\<close> tests the status for \<open>skipped\<close> only; and an item whose \<open>resolve\<close> hook
  throws after the item was marked \<open>done\<close> ends in status \<open>error\<close>, with the hook
  called and the thrown error as result.
\<close>

theorem settlement_after_timeout_counterexample:
  "(case run sha1_sample [(1201, Tick)] hanging of
      Inr d \<Rightarrow> status (heap d ! 0) = STATUS_TIMED_OUT \<and> result (heap d ! 0) = Undefined
    | Inl _ \<Rightarrow> False)
   \<and> (case run sha1_sample [(1201, Tick), (1300, Settle 0 (Fulfilled (Str ''late'')))] hanging of
      Inr d \<Rightarrow> status (heap d ! 0) = STATUS_DONE \<and> result (heap d ! 0) = Str ''late''
    | Inl _ \<Rightarrow> False)
   \<and> (case run_any sha1_sample twice_events (new_dequeue 0) of
      Inr d \<Rightarrow> status (heap d ! 0) = STATUS_DONE \<and> queues d = [0, 0] \<and> pending d = [0]
    | Inl _ \<Rightarrow> False)
   \<and> (case run_any sha1_sample (twice_events @ [(3, Regular Admit)]) (new_dequeue 0) of
      Inr d \<Rightarrow> status (heap d ! 0) = STATUS_PROCESSING
    | Inl _ \<Rightarrow> False)
   \<and> (case run_any sha1_sample throwing_events (new_dequeue 0) of
      Inr d \<Rightarrow> status (heap d ! 0) = STATUS_ERROR
        \<and> result (heap d ! 0) = Err 1 PlainError ''Error: hook''
        \<and> filter (\<lambda>a. case a of Resolve _ _ \<Rightarrow> True | Reject _ _ \<Rightarrow> True | _ \<Rightarrow> False) (trace d)
            = [Resolve 0 (Str ''ok'')]
    | Inl _ \<Rightarrow> False)"
  by code_simp

section \<open>The status report\<close>

lemma settled_simps [simp]:
  "settled (act a d) = settled d @ settled_of a"
  "settled (on_item i m d) = settled d"
  "settled (setLastQueue i d) = settled d"
  "settled (d\<lparr>inflight := x\<rparr>) = settled d"
  "settled (d\<lparr>retrying := x\<rparr>) = settled d"
  "settled (d\<lparr>timingout := x\<rparr>) = settled d"
  "settled (d\<lparr>heap := y\<rparr>) = settled d"
  "settled (d\<lparr>queues := u\<rparr>) = settled d"
  "settled (d\<lparr>pending := z\<rparr>) = settled d"
  "settled (d\<lparr>current := w\<rparr>) = settled d"
  "settled (d\<lparr>consumer := c\<rparr>) = settled d"
  "settled (d\<lparr>polling := b\<rparr>) = settled d"
  "settled (d\<lparr>lastq := l\<rparr>) = settled d"
  by (simp_all add: settled_def act_def on_item_def setLastQueue_def split: prod.splits)

lemma last_settled_alt:
  "last_settled d = (if filter (\<lambda>i. \<not> is_callback d i) (settled d) = [] then None
     else Some (last (filter (\<lambda>i. \<not> is_callback d i) (settled d))))"
  by (simp add: last_settled_def split: list.splits)

text \<open>What a step records: nothing, or the settlement of one item.\<close>

lemma success_record:
  assumes "i < length (heap d)"
  shows "lastq (success i r d) = (if is_callback d i then lastq d else Some i)
     \<and> settled (success i r d) = settled d @ [i]"
  using assms
  by (simp add: success_def Let_def emit_def queue_next_def setLastQueue_def is_callback_def)

lemma fail_record:
  assumes "i < length (heap d)"
  shows "lastq (fail i e d) = (if is_callback d i then lastq d else Some i)
     \<and> settled (fail i e d) = settled d @ [i]"
  using assms
  by (simp add: fail_def Let_def emit_def queue_next_def setLastQueue_def is_callback_def)

lemma doit_record: "lastq (doit now i d) = lastq d \<and> settled (doit now i d) = settled d"
  by (simp add: doit_def Let_def emit_def queue_next_def getNext_def split: option.splits list.splits)

lemma retry_closure_record:
  assumes "i < length (heap d)"
  shows "lastq (retry_closure now i e d) = lastq d \<and> settled (retry_closure now i e d) = settled d
     \<or> lastq (retry_closure now i e d) = (if is_callback d i then lastq d else Some i)
         \<and> settled (retry_closure now i e d) = settled d @ [i]
         \<and> status (heap (retry_closure now i e d) ! i) = STATUS_ERROR"
proof -
  let ?n = "(case retryCount (heap d ! i) of None \<Rightarrow> 0 | Some k \<Rightarrow> k) + 1"
  let ?d1 = "d\<lparr>heap := (heap d)[i := (heap d ! i)\<lparr>retryCount := Some ?n\<rparr>]\<rparr>"
  let ?q = "heap ?d1 ! i"
  let ?d2 = "act (Console (RetryLine (toString ?q) ?n)) ?d1"
  have l1: "i < length (heap ?d1)" using assms by simp
  have cb: "is_callback ?d1 i = is_callback d i" using assms by (simp add: is_callback_def)
  have "retry_closure now i e d = doit now i ?d2
      \<or> retry_closure now i e d = (act (OnRetry i) ?d2)\<lparr>retrying := retrying ?d2 @ [i]\<rparr>
      \<or> retry_closure now i e d = fail i e ?d1"
    unfolding retry_closure_def Let_def by simp
  then consider (again) "retry_closure now i e d = doit now i ?d2"
    | (hook) "retry_closure now i e d = (act (OnRetry i) ?d2)\<lparr>retrying := retrying ?d2 @ [i]\<rparr>"
    | (fail) "retry_closure now i e d = fail i e ?d1"
    by blast
  then show ?thesis
  proof cases
    case again
    then show ?thesis using doit_record [of now i ?d2] by simp
  next
    case hook
    then show ?thesis by simp
  next
    case fail
    then show ?thesis using fail_record [OF l1, of e] fail_effect [OF l1, of e] cb by simp
  qed
qed

lemma poll_record: "poll now d = Inr d' \<Longrightarrow> lastq d' = lastq d \<and> settled d' = settled d"
  by (auto simp: poll_def Let_def queue_next_def split: list.splits option.splits if_splits)

lemma step_records:
  assumes "sound d" and "step dg now e d = Inr d'"
  shows "lastq d' = lastq d \<and> settled d' = settled d
     \<or> (\<exists>i<length (heap d). lastq d' = (if is_callback d i then lastq d else Some i)
           \<and> settled d' = settled d @ [i]
           \<and> (status (heap d' ! i) = STATUS_DONE \<or> status (heap d' ! i) = STATUS_ERROR))"
proof (cases e)
  case (Add q)
  then have "d' = snd (add dg now q d)" using assms(2) by simp
  then show ?thesis by (simp add: add_eq Let_def requeue_def queue_next_def)
next
  case (SetConsumer c)
  then have "setConsumer now c d = Inr d'" using assms(2) by simp
  then show ?thesis
    by (auto simp: setConsumer_def Let_def dest!: poll_record split: option.splits)
next
  case Admit
  then have "d' = admit now d" using assms(2) by simp
  then show ?thesis
    by (auto simp: admit_def doQueue_def doit_record split: list.splits option.splits)
next
  case (Settle i oc)
  show ?thesis
  proof (cases "i \<in> set (inflight d)")
    case False
    then show ?thesis using assms(2) Settle by simp
  next
    case True
    let ?d1 = "d\<lparr>inflight := remove1 i (inflight d)\<rparr>"
    have i: "i < length (heap d)" using assms(1) True by (auto simp: sound_def)
    then have l: "i < length (heap ?d1)" by simp
    have cb: "is_callback ?d1 i = is_callback d i" by (simp add: is_callback_def)
    show ?thesis
    proof (cases oc)
      case (Fulfilled res)
      then have "d' = success i res ?d1" using assms(2) Settle True by simp
      then show ?thesis using success_record [OF l, of res] success_effect [OF l, of res] cb i by auto
    next
      case (Rejected err)
      then have "d' = retry_closure now i err ?d1" using assms(2) Settle True by simp
      then show ?thesis using retry_closure_record [OF l, of now err] cb i by auto
    qed
  qed
next
  case (RetrySettled i oc)
  show ?thesis
  proof (cases "i \<in> set (retrying d)")
    case False
    then show ?thesis using assms(2) RetrySettled by simp
  next
    case True
    let ?d1 = "d\<lparr>retrying := remove1 i (retrying d)\<rparr>"
    have i: "i < length (heap d)" using assms(1) True by (auto simp: sound_def)
    then have l: "i < length (heap ?d1)" by simp
    have cb: "is_callback ?d1 i = is_callback d i" by (simp add: is_callback_def)
    show ?thesis
    proof (cases oc)
      case (Fulfilled res)
      then have "d' = doit now i ?d1" using assms(2) RetrySettled True by simp
      then show ?thesis using doit_record [of now i ?d1] by simp
    next
      case (Rejected err)
      then have "d' = fail i err ?d1" using assms(2) RetrySettled True by simp
      then show ?thesis using fail_record [OF l, of err] fail_effect [OF l, of err] cb i by auto
    qed
  qed
next
  case (TimeoutSettled i oc)
  then show ?thesis using assms(2) by (auto simp: queue_next_def split: if_splits)
next
  case Tick
  then show ?thesis using assms(2) by (auto dest: poll_record split: if_splits)
next
  case (Skip i)
  then show ?thesis using assms(2) by (auto split: if_splits)
qed

text \<open>The types of the items a step finds are the types it leaves.\<close>

lemma moves_length: "moves d d' \<Longrightarrow> length (heap d) \<le> length (heap d')"
  unfolding moves_def same_shape_def by (auto dest: shape_length)

lemma moves_callback:
  assumes "moves d d'" and "x < length (heap d)"
  shows "is_callback d' x = is_callback d x"
  using assms(1) unfolding moves_def
proof (elim disjE exE conjE)
  assume "same_shape d d'"
  then have "map qtype (heap d') = map qtype (heap d)" by (simp add: same_shape_def)
  then show ?thesis using shape_callback [of d' d x] assms(2) by simp
next
  fix q
  assume "heap d' = heap d @ [q]"
  then show ?thesis using assms(2) by (simp add: is_callback_def nth_append)
next
  fix h
  assume "map qtype (heap d') = map qtype (heap d)"
  then show ?thesis using shape_callback [of d' d x] assms(2) by simp
qed

lemma step_recorded:
  assumes "sound d" and "step dg now e d = Inr d'"
    and "lastq d = last_settled d" and "\<forall>i\<in>set (settled d). i < length (heap d)"
  shows "lastq d' = last_settled d' \<and> (\<forall>i\<in>set (settled d'). i < length (heap d'))"
proof -
  have m: "moves d d'" using assms(2) by (rule step_moves)
  have cb: "\<And>x. x < length (heap d) \<Longrightarrow> is_callback d' x = is_callback d x"
    using moves_callback [OF m] by simp
  have len: "length (heap d) \<le> length (heap d')"
    using m by (rule moves_length)
  have f: "filter (\<lambda>i. \<not> is_callback d' i) (settled d) = filter (\<lambda>i. \<not> is_callback d i) (settled d)"
    using cb assms(4) by (intro filter_cong) auto
  from step_records [OF assms(1,2)]
  consider (keep) "lastq d' = lastq d" "settled d' = settled d"
    | (new) i where "i < length (heap d)" "lastq d' = (if is_callback d i then lastq d else Some i)"
        "settled d' = settled d @ [i]"
    by blast
  then show ?thesis
  proof cases
    case keep
    then have "last_settled d' = last_settled d" using f by (simp add: last_settled_alt)
    then show ?thesis using keep assms(3,4) len by auto
  next
    case new
    have "last_settled d' = (if is_callback d i then last_settled d else Some i)"
      using new(1,3) f cb [OF new(1)] by (simp add: last_settled_alt)
    then show ?thesis using new assms(3,4) len by auto
  qed
qed

lemma step_sound_only: "sound d \<Longrightarrow> step dg now e d = Inr d' \<Longrightarrow> sound d'"
  using step_sound by blast

lemma run_recorded:
  assumes "run dg es d = Inr d'" and "sound d"
    and "lastq d = last_settled d" and "\<forall>i\<in>set (settled d). i < length (heap d)"
  shows "lastq d' = last_settled d' \<and> (\<forall>i\<in>set (settled d'). i < length (heap d'))"
  using assms
proof (induction es arbitrary: d)
  case Nil
  then show ?case by simp
next
  case (Cons a es)
  obtain t e where a: "a = (t, e)" by (cases a)
  from Cons.prems(1) a obtain d1 where d1: "step dg t e d = Inr d1" "run dg es d1 = Inr d'"
    by (auto split: sum.splits)
  have s1: "sound d1" using Cons.prems(2) d1(1) by (rule step_sound_only)
  have r1: "lastq d1 = last_settled d1 \<and> (\<forall>i\<in>set (settled d1). i < length (heap d1))"
    using Cons.prems(2) d1(1) Cons.prems(3,4) by (rule step_recorded)
  show ?case using Cons.IH [OF d1(2) s1] r1 by blast
qed

lemma consistent_sound: "consistent d \<Longrightarrow> sound d"
  unfolding consistent_def sound_def by (auto simp: running_def started_def)

text \<open>
  In a run in which every object is submitted once, in status \<open>new\<close>, the items
  for which \<open>queue-done\<close> or \<open>queue-error\<close> was emitted stay \<open>done\<close> or \<open>error\<close>.
\<close>

lemma step_settled:
  assumes "consistent d" and "submits_new e" and "step dg now e d = Inr d'"
    and "\<forall>i\<in>set (settled d). i < length (heap d)
           \<and> (status (heap d ! i) = STATUS_DONE \<or> status (heap d ! i) = STATUS_ERROR)"
  shows "\<forall>i\<in>set (settled d'). i < length (heap d')
           \<and> (status (heap d' ! i) = STATUS_DONE \<or> status (heap d' ! i) = STATUS_ERROR)"
proof
  fix j
  assume j: "j \<in> set (settled d')"
  have st: "steady d d'" using step_consistent [OF assms(1,2,3)] by blast
  have len: "length (heap d) \<le> length (heap d')"
    using step_moves [OF assms(3)] by (rule moves_length)
  have old: "x < length (heap d') \<and> (status (heap d' ! x) = STATUS_DONE \<or> status (heap d' ! x) = STATUS_ERROR)"
    if x: "x \<in> set (settled d)" for x
  proof -
    from x assms(4) have b: "x < length (heap d)"
      and f: "status (heap d ! x) = STATUS_DONE \<or> status (heap d ! x) = STATUS_ERROR"
      by blast+
    from st b have "allowed (status (heap d ! x)) (status (heap d' ! x))" by (simp add: steady_def)
    with f have "status (heap d' ! x) = status (heap d ! x)" by (auto simp: allowed_def)
    with f b len show ?thesis by simp
  qed
  from step_records [OF consistent_sound [OF assms(1)] assms(3)]
  consider (keep) "settled d' = settled d"
    | (new) i where "i < length (heap d)" "settled d' = settled d @ [i]"
        "status (heap d' ! i) = STATUS_DONE \<or> status (heap d' ! i) = STATUS_ERROR"
    by blast
  then show "j < length (heap d') \<and> (status (heap d' ! j) = STATUS_DONE \<or> status (heap d' ! j) = STATUS_ERROR)"
  proof cases
    case keep
    then show ?thesis using j old by simp
  next
    case new
    then have "j \<in> set (settled d) \<or> j = i" using j by auto
    then show ?thesis using old new(1,3) len by auto
  qed
qed

lemma run_settled:
  assumes "run dg es d = Inr d'" and "consistent d" and "list_all submits_new (map snd es)"
    and "\<forall>i\<in>set (settled d). i < length (heap d)
           \<and> (status (heap d ! i) = STATUS_DONE \<or> status (heap d ! i) = STATUS_ERROR)"
  shows "\<forall>i\<in>set (settled d'). i < length (heap d')
           \<and> (status (heap d' ! i) = STATUS_DONE \<or> status (heap d' ! i) = STATUS_ERROR)"
  using assms
proof (induction es arbitrary: d)
  case Nil
  then show ?case by simp
next
  case (Cons a es)
  obtain t e where a: "a = (t, e)" by (cases a)
  from Cons.prems(1) a obtain d1 where d1: "step dg t e d = Inr d1" "run dg es d1 = Inr d'"
    by (auto split: sum.splits)
  have n: "submits_new e" "list_all submits_new (map snd es)" using Cons.prems(3) a by simp_all
  have c1: "consistent d1" using step_consistent [OF Cons.prems(2) n(1) d1(1)] by blast
  have s1: "\<forall>i\<in>set (settled d1). i < length (heap d1)
           \<and> (status (heap d1 ! i) = STATUS_DONE \<or> status (heap d1 ! i) = STATUS_ERROR)"
    using Cons.prems(2) n(1) d1(1) Cons.prems(4) by (rule step_settled)
  show ?case using Cons.IH [OF d1(2) c1 n(2) s1] .
qed

text \<open>
  C8 (as amended). \<open>getStatus\<close> returns a report with the creation time of the
  dispatcher, the length of the history, the number of pending items, under
  \<open>current\<close> the display strings of the history entries in status \<open>processing\<close>
  joined by the markup \<open><br/>\<close> (when there is none, the field is what the
  dispatcher's info gives, normally nothing), and under \<open>last\<close> the log entry of
  the item recorded by \<open>setLastQueue\<close> (when none is recorded, again what the info
  gives). In every run from a new dispatcher in which every object is submitted
  once and no hook or listener throws, the recorded item is the item for which
  \<open>queue-done\<close> or \<open>queue-error\<close> was emitted most recently, callback items not
  counted: the last item that is not a callback and whose consumer call, or
  \<open>onretry\<close> promise, settled as done or error; and when the objects are
  submitted in status \<open>new\<close>, its status is \<open>done\<close> or \<open>error\<close>. An item that
  timed out or was skipped is not recorded.
\<close>

theorem getStatus_snapshot:
  "getStatus inspect d ''time'' = Some (FTime (time d))
   \<and> getStatus inspect d ''total'' = Some (FCount (length (queues d)))
   \<and> getStatus inspect d ''queue'' = Some (FCount (length (pending d)))
   \<and> getStatus inspect d ''current'' =
        (if processing d \<noteq> []
         then Some (FText (join_strings ''<br/>'' (map (\<lambda>i. toString (heap d ! i)) (processing d))))
         else buildInfo (info d) ''current'')
   \<and> getStatus inspect d ''last'' =
        (case lastq d of
           Some i \<Rightarrow> Some (FLog (getLog inspect False (heap d ! i)))
         | None \<Rightarrow> buildInfo (info d) ''last'')
   \<and> (run dg es (new_dequeue t0) = Inr d \<longrightarrow>
        lastq d = last_settled d
        \<and> getStatus inspect d ''last'' =
             (case last_settled d of
                Some i \<Rightarrow> Some (FLog (getLog inspect False (heap d ! i)))
              | None \<Rightarrow> buildInfo (info d) ''last'')
        \<and> (\<forall>i. last_settled d = Some i \<longrightarrow>
               i < length (heap d) \<and> \<not> is_callback d i \<and> i \<in> set (settled d)
               \<and> (list_all submits_new (map snd es) \<longrightarrow>
                    status (heap d ! i) = STATUS_DONE \<or> status (heap d ! i) = STATUS_ERROR)))"
proof -
  have a: "getStatus inspect d ''time'' = Some (FTime (time d))
      \<and> getStatus inspect d ''total'' = Some (FCount (length (queues d)))
      \<and> getStatus inspect d ''queue'' = Some (FCount (length (pending d)))
      \<and> getStatus inspect d ''current'' =
        (if processing d \<noteq> []
         then Some (FText (join_strings ''<br/>'' (map (\<lambda>i. toString (heap d ! i)) (processing d))))
         else buildInfo (info d) ''current'')"
    by (simp add: getStatus_def Let_def getLast_def split: option.splits)
  have b: "getStatus inspect d ''last'' =
        (case lastq d of
           Some i \<Rightarrow> Some (FLog (getLog inspect False (heap d ! i)))
         | None \<Rightarrow> buildInfo (info d) ''last'')"
    by (simp add: getStatus_def Let_def getLast_def split: option.splits)
  have c: "lastq d = last_settled d
      \<and> (\<forall>i. last_settled d = Some i \<longrightarrow>
             i < length (heap d) \<and> \<not> is_callback d i \<and> i \<in> set (settled d)
             \<and> (list_all submits_new (map snd es) \<longrightarrow>
                  status (heap d ! i) = STATUS_DONE \<or> status (heap d ! i) = STATUS_ERROR))"
    if r: "run dg es (new_dequeue t0) = Inr d"
  proof -
    have "sound (new_dequeue t0)" by (simp add: sound_def new_dequeue_def)
    moreover have "lastq (new_dequeue t0) = last_settled (new_dequeue t0)"
      by (simp add: last_settled_def settled_def new_dequeue_def)
    moreover have "\<forall>i\<in>set (settled (new_dequeue t0)). i < length (heap (new_dequeue t0))"
      by (simp add: settled_def new_dequeue_def)
    ultimately have l: "lastq d = last_settled d" "\<forall>i\<in>set (settled d). i < length (heap d)"
      using run_recorded [OF r] by blast+
    have f: "\<forall>i\<in>set (settled d). status (heap d ! i) = STATUS_DONE \<or> status (heap d ! i) = STATUS_ERROR"
      if n: "list_all submits_new (map snd es)"
    proof -
      have "consistent (new_dequeue t0)" by (simp add: consistent_def new_dequeue_def)
      moreover have "\<forall>i\<in>set (settled (new_dequeue t0)). i < length (heap (new_dequeue t0))
          \<and> (status (heap (new_dequeue t0) ! i) = STATUS_DONE
              \<or> status (heap (new_dequeue t0) ! i) = STATUS_ERROR)"
        by (simp add: settled_def new_dequeue_def)
      ultimately show ?thesis using run_settled [OF r _ n] by blast
    qed
    have "i < length (heap d) \<and> \<not> is_callback d i \<and> i \<in> set (settled d)
        \<and> (list_all submits_new (map snd es) \<longrightarrow>
             status (heap d ! i) = STATUS_DONE \<or> status (heap d ! i) = STATUS_ERROR)"
      if s: "last_settled d = Some i" for i
    proof -
      let ?xs = "filter (\<lambda>i. \<not> is_callback d i) (settled d)"
      from s have "?xs \<noteq> []" "i = last ?xs"
        by (auto simp: last_settled_alt split: if_splits)
      then have "i \<in> set ?xs" by (metis last_in_set)
      then show ?thesis using l(2) f by auto
    qed
    then show ?thesis using l(1) by blast
  qed
  show ?thesis using a b c by simp
qed

lemma served_reached: "run sha1_sample served_events (new_dequeue 0) = Inr served"
proof -
  have "ok (run sha1_sample served_events (new_dequeue 0))" by code_simp
  then show ?thesis
    unfolding served_def by (rule ok_the_state)
qed

lemma served_facts:
  "time served = 0 \<and> queues served = [0, 1] \<and> pending served = [] \<and> processing served = [1]
   \<and> toString (heap served ! 1) = ''spp:356a192b''
   \<and> lastq served = Some 0
   \<and> getLog (\<lambda>_. []) False (heap served ! 0) =
       \<lparr>log_id = Some ''b6589fc6'', log_type = Some QUEUE_SPP, log_name = None, log_time = Some 2,
        log_status = STATUS_DONE, log_result = Some (Str ''ok'')\<rparr>
   \<and> settled served = [0] \<and> \<not> is_callback served 0 \<and> length (heap served) = 2
   \<and> list_all submits_new (map snd served_events)
   \<and> status (heap served ! 0) = STATUS_DONE"
  by code_simp

theorem getStatus_snapshot_witness:
  "run sha1_sample served_events (new_dequeue 0) = Inr served
   \<and> getStatus (\<lambda>_. []) served ''time'' = Some (FTime 0)
   \<and> getStatus (\<lambda>_. []) served ''total'' = Some (FCount 2)
   \<and> getStatus (\<lambda>_. []) served ''queue'' = Some (FCount 0)
   \<and> getStatus (\<lambda>_. []) served ''current'' = Some (FText ''spp:356a192b'')
   \<and> getStatus (\<lambda>_. []) served ''last'' = Some (FLog
       \<lparr>log_id = Some ''b6589fc6'', log_type = Some QUEUE_SPP, log_name = None, log_time = Some 2,
        log_status = STATUS_DONE, log_result = Some (Str ''ok'')\<rparr>)
   \<and> last_settled served = Some 0 \<and> 0 \<in> set (settled served) \<and> \<not> is_callback served 0
   \<and> list_all submits_new (map snd served_events)
   \<and> status (heap served ! 0) = STATUS_DONE"
  using getStatus_snapshot [of "\<lambda>_. []" served sha1_sample served_events 0] served_reached
    served_facts
  by simp

text \<open>
  The claim as stated fails twice. With two items in status \<open>processing\<close> the
  field \<open>current\<close> is not their display strings joined by a newline. And an item
  that is finished need not be under \<open>last\<close>: the item that the tick at 1201 timed
  out is finished and not a callback, and the report has no field \<open>last\<close>.
\<close>

theorem getStatus_counterexample:
  "(case run sha1_sample two_processing (new_dequeue 0) of
      Inr d \<Rightarrow> processing d = [0, 1]
        \<and> getStatus (\<lambda>_. []) d ''current'' = Some (FText ''spp:b6589fc6<br/>spp:b6589fc6'')
        \<and> getStatus (\<lambda>_. []) d ''current'' \<noteq>
            Some (FText (join_strings [CHR 0x0A] (map (\<lambda>i. toString (heap d ! i)) (processing d))))
    | Inl _ \<Rightarrow> False)
   \<and> (case run sha1_sample [(1201, Tick)] hanging of
      Inr d \<Rightarrow> finished (heap d ! 0) \<and> status (heap d ! 0) = STATUS_TIMED_OUT
        \<and> \<not> is_callback d 0 \<and> getStatus (\<lambda>_. []) d ''last'' = None
    | Inl _ \<Rightarrow> False)"
  by code_simp

end
